theory Spec2Isabelle
  imports Complex_Main
begin

section \<open>Cartesian Genetic Programming: genotype, mutation and the evolution loop\<close>

text \<open>
  A shallow embedding of \<^verbatim>\<open>src/cgp/cgp.py\<close>. Python integers are \<open>int\<close>. The
  mutation rate is a binary64 float, and the product in
  \<^verbatim>\<open>int(num_genes * mutation_rate)\<close> is the correctly rounded one; scores and
  accuracies, which are only stored and compared, are \<open>real\<close>. Exceptions are values
  of \<open>error\<close>, and a loop that may run forever is a \<open>partial_function\<close> whose value
  \<open>None\<close> means that the call does not return.
\<close>

subsection \<open>Exceptions and the random source\<close>

datatype error =
  ValueError | IndexError | AttributeError | ZeroDivisionError | TypeError | RecursionError
  | OverflowError

text \<open>
  \<^verbatim>\<open>np.random\<close> is the process-global generator. It is modelled as the infinite
  sequence of raw draws still to come; a draw from \<open>[low, high)\<close> reduces the next raw
  value into the interval, so every value of the interval can occur.
  \<^verbatim>\<open>randint\<close> raises \<^verbatim>\<open>ValueError\<close> on an empty interval.
\<close>

type_synonym rng = "nat \<Rightarrow> nat"

definition randint :: "int \<Rightarrow> int \<Rightarrow> rng \<Rightarrow> error + (int \<times> rng)" where
  "randint low high g =
     (if high \<le> low then Inl ValueError
      else Inr (low + int (g 0 mod nat (high - low)), \<lambda>i. g (Suc i)))"

text \<open>Python and numpy indexing: a negative index counts from the end.\<close>

definition py_index :: "'a list \<Rightarrow> int \<Rightarrow> error + nat" where
  "py_index xs i =
     (if 0 \<le> i \<and> i < int (length xs) then Inr (nat i)
      else if i < 0 \<and> - int (length xs) \<le> i then Inr (nat (int (length xs) + i))
      else Inl IndexError)"

text \<open>\<^verbatim>\<open>np.zeros(n, dtype=int)\<close> raises on a negative dimension.\<close>

definition np_zeros :: "int \<Rightarrow> error + int list" where
  "np_zeros n = (if n < 0 then Inl ValueError else Inr (replicate (nat n) 0))"

subsection \<open>Floats\<close>

text \<open>
  A Python float is an IEEE 754 binary64 number: \<open>Finite m e\<close> is the number
  \<open>m * 2 ^ e\<close>, and a float proper has \<open>\<bar>m\<bar> < 2 ^ 53\<close>, \<open>- 1074 \<le> e\<close> and
  \<open>\<bar>m\<bar> * 2 ^ e < 2 ^ 1024\<close>. The sign of a zero is not kept: nothing that the
  program does with a float tells the two zeros apart.
\<close>

datatype py_float = Finite int int | Infinity bool | NaN

text \<open>The number of binary digits of a positive integer (\<^verbatim>\<open>int.bit_length\<close>).\<close>

function bit_length :: "int \<Rightarrow> int" where
  "bit_length n = (if n \<le> 0 then 0 else 1 + bit_length (n div 2))"
  by auto

termination
  by (relation "measure nat") auto

declare bit_length.simps [simp del]

text \<open>The integer nearest to \<open>a / 2 ^ k\<close>, the even one of two that are equally near.\<close>

definition round_half_even :: "int \<Rightarrow> nat \<Rightarrow> int" where
  "round_half_even a k =
     (let q = a div 2 ^ k; r = a mod 2 ^ k
      in if 2 * r > 2 ^ k \<or> (2 * r = 2 ^ k \<and> odd q) then q + 1 else q)"

text \<open>
  The float nearest to the exact number \<open>m * 2 ^ e\<close> (round to nearest, ties to even):
  the mantissa keeps 53 digits, fewer below the smallest normal number, and a result
  of \<open>2 ^ 1024\<close> or more is an infinity.
\<close>

definition float_round :: "int \<Rightarrow> int \<Rightarrow> py_float" where
  "float_round m e =
     (let shift = max (bit_length \<bar>m\<bar> - 53) (- 1074 - e);
          q = (if shift \<le> 0 then m else round_half_even m (nat shift));
          e' = (if shift \<le> 0 then e else e + shift)
      in if bit_length \<bar>q\<bar> + e' > 1024 then Infinity (0 < q) else Finite q e')"

text \<open>The conversion of an \<^verbatim>\<open>int\<close> operand to a float raises when it is out of range.\<close>

definition float_of_int :: "int \<Rightarrow> error + py_float" where
  "float_of_int n =
     (case float_round n 0 of
        Infinity s \<Rightarrow> Inl OverflowError
      | x \<Rightarrow> Inr x)"

fun float_mul :: "py_float \<Rightarrow> py_float \<Rightarrow> py_float" where
  "float_mul (Finite m1 e1) (Finite m2 e2) = float_round (m1 * m2) (e1 + e2)"
| "float_mul NaN y = NaN"
| "float_mul x NaN = NaN"
| "float_mul (Infinity s) (Infinity t) = Infinity (s = t)"
| "float_mul (Infinity s) (Finite m e) = (if m = 0 then NaN else Infinity (s = (0 < m)))"
| "float_mul (Finite m e) (Infinity s) = (if m = 0 then NaN else Infinity (s = (0 < m)))"

text \<open>\<^verbatim>\<open>int * float\<close>: the integer is converted first.\<close>

definition int_mul_float :: "int \<Rightarrow> py_float \<Rightarrow> error + py_float" where
  "int_mul_float n x = (case float_of_int n of Inl e \<Rightarrow> Inl e | Inr y \<Rightarrow> Inr (float_mul y x))"

text \<open>
  \<^verbatim>\<open>int()\<close> of a float truncates towards zero; it raises \<^verbatim>\<open>OverflowError\<close> on an
  infinity and \<^verbatim>\<open>ValueError\<close> on a NaN.
\<close>

definition py_int :: "py_float \<Rightarrow> error + int" where
  "py_int x =
     (case x of
        Finite m e \<Rightarrow>
          Inr (if 0 \<le> e then m * 2 ^ nat e else sgn m * (\<bar>m\<bar> div 2 ^ nat (- e)))
      | Infinity s \<Rightarrow> Inl OverflowError
      | NaN \<Rightarrow> Inl ValueError)"


subsection \<open>Configuration\<close>

record CgpConfig =
  rows :: int
  cols :: int
  level_back :: int
  num_input :: int
  num_output :: int
  num_nodes :: int
  cfg_functions :: "string list"
  function_inputs :: "int list"
  num_func_genes :: int
  max_inputs :: int
  mutation_rate :: py_float

text \<open>
  \<^verbatim>\<open>CgpConfig.__init__\<close>. The function objects are opaque to the core; only their
  number matters, so they are stood for by their names. \<^verbatim>\<open>np.max\<close> of an empty
  list raises \<^verbatim>\<open>ValueError\<close>.
\<close>

definition CgpConfig_init ::
  "int \<Rightarrow> int \<Rightarrow> int \<Rightarrow> string list \<Rightarrow> int list \<Rightarrow> py_float \<Rightarrow> error + CgpConfig" where
  "CgpConfig_init r c lb fs fis rate =
     (if length fs \<noteq> length fis then Inl ValueError
      else case fis of
        [] \<Rightarrow> Inl ValueError
      | x # xs \<Rightarrow>
          Inr \<lparr> rows = r, cols = c, level_back = lb, num_input = 1, num_output = 1,
                num_nodes = r * c, cfg_functions = fs, function_inputs = fis,
                num_func_genes = int (length fs), max_inputs = fold max xs x,
                mutation_rate = rate \<rparr>)"

subsection \<open>Genes and individuals\<close>

text \<open>
  A gene object: the attributes of the base class \<^verbatim>\<open>Gen\<close>, and \<^verbatim>\<open>fnc_idx\<close>, which
  only a \<^verbatim>\<open>FunctionGen\<close> has (\<open>None\<close>: the attribute does not exist, and reading it
  raises \<^verbatim>\<open>AttributeError\<close>).
\<close>

record Gen =
  is_output :: bool
  fnc_idx :: "int option"
  inputs :: "int list"
  num_inputs :: int

definition OutputGen :: "int \<Rightarrow> error + Gen" where
  "OutputGen max_in =
     (case np_zeros max_in of
        Inl e \<Rightarrow> Inl e
      | Inr z \<Rightarrow> Inr \<lparr> is_output = True, fnc_idx = None, inputs = z, num_inputs = 1 \<rparr>)"

definition FunctionGen :: "int \<Rightarrow> int \<Rightarrow> int \<Rightarrow> error + Gen" where
  "FunctionGen f max_in n_in =
     (case np_zeros max_in of
        Inl e \<Rightarrow> Inl e
      | Inr z \<Rightarrow> Inr \<lparr> is_output = False, fnc_idx = Some f, inputs = z, num_inputs = n_in \<rparr>)"

definition get_fnc_idx :: "Gen \<Rightarrow> error + int" where
  "get_fnc_idx gene = (case fnc_idx gene of None \<Rightarrow> Inl AttributeError | Some f \<Rightarrow> Inr f)"

text \<open>
  An individual. The configuration is shared by reference and never written, so it is
  passed beside the individual. \<open>active = None\<close> is Python's \<^verbatim>\<open>None\<close>: the
  individual has not been spawned. The model handle is opaque.
\<close>

record Individual =
  genes :: "Gen list"
  active :: "bool list option"
  score :: "real option"
  total_params :: "real option"
  accuracy :: "real option"
  model :: "nat option"

definition Individual_init :: Individual where
  "Individual_init =
     \<lparr> genes = [], active = None, score = None, total_params = None,
       accuracy = None, model = None \<rparr>"

definition is_spawned :: "Individual \<Rightarrow> bool" where
  "is_spawned ind = (active ind \<noteq> None)"

subsection \<open>The reachability walk\<close>

text \<open>
  \<^verbatim>\<open>__walk_to_out\<close> recurses once for every connection of a node it marks. The
  first argument is the depth of recursion still allowed, and using it up raises
  \<^verbatim>\<open>RecursionError\<close>. \<open>check_active\<close> allows one level more than the mask has
  entries, which is never used up (lemma \<open>walk_to_out_depth\<close>), because every
  nested call has marked one more node.
\<close>

fun walk_to_out :: "nat \<Rightarrow> CgpConfig \<Rightarrow> Gen list \<Rightarrow> bool list \<Rightarrow> int \<Rightarrow> error + bool list" where
  "walk_to_out 0 cfg gs act node = Inl RecursionError"
| "walk_to_out (Suc d) cfg gs act node =
     (case py_index act node of
        Inl e \<Rightarrow> Inl e
      | Inr k \<Rightarrow>
          if act ! k then Inr act
          else (case py_index gs node of
                  Inl e \<Rightarrow> Inl e
                | Inr j \<Rightarrow>
                    fold (\<lambda>i r.
                        case r of
                          Inl e \<Rightarrow> Inl e
                        | Inr a \<Rightarrow>
                            (case py_index (inputs (gs ! j)) (int i) of
                               Inl e \<Rightarrow> Inl e
                             | Inr c \<Rightarrow>
                                 if inputs (gs ! j) ! c \<ge> num_input cfg
                                 then walk_to_out d cfg gs a (inputs (gs ! j) ! c - num_input cfg)
                                 else Inr a))
                      [0..<nat (num_inputs (gs ! j))]
                      (Inr (act[k := True]))))"

text \<open>
  \<^verbatim>\<open>check_active\<close>: clear the mask, then walk back from every output gene. Slice
  assignment to \<^verbatim>\<open>None\<close> raises \<^verbatim>\<open>TypeError\<close>.
\<close>

definition check_active :: "CgpConfig \<Rightarrow> Individual \<Rightarrow> error + Individual" where
  "check_active cfg ind =
     (case active ind of
        None \<Rightarrow> Inl TypeError
      | Some act \<Rightarrow>
          (case fold (\<lambda>node r.
                   case r of
                     Inl e \<Rightarrow> Inl e
                   | Inr a \<Rightarrow> walk_to_out (Suc (length a)) cfg (genes ind) a (num_nodes cfg + int node))
                 [0..<nat (num_output cfg)]
                 (Inr (replicate (length act) False)) of
             Inl e \<Rightarrow> Inl e
           | Inr a \<Rightarrow> Inr (ind\<lparr>active := Some a\<rparr>)))"

subsection \<open>Initialisation and cloning\<close>

text \<open>The loop of \<^verbatim>\<open>init_genes\<close> that connects every slot of a new gene at random.\<close>

fun init_inputs :: "int \<Rightarrow> int \<Rightarrow> nat list \<Rightarrow> int list \<Rightarrow> rng \<Rightarrow> error + (int list \<times> rng)" where
  "init_inputs min_con_id max_con_id [] ins g = Inr (ins, g)"
| "init_inputs min_con_id max_con_id (i # slots) ins g =
     (case randint 0 (max_con_id - min_con_id) g of
        Inl e \<Rightarrow> Inl e
      | Inr (r, g') \<Rightarrow> init_inputs min_con_id max_con_id slots (ins[i := min_con_id + r]) g')"

text \<open>The body of the loop over \<^verbatim>\<open>node\<close>: floor division by zero rows raises.\<close>

definition init_gene :: "CgpConfig \<Rightarrow> int \<Rightarrow> rng \<Rightarrow> error + (Gen \<times> rng)" where
  "init_gene cfg node g =
     (case (if node < num_nodes cfg
            then (case randint 0 (num_func_genes cfg) g of
                    Inl e \<Rightarrow> Inl e
                  | Inr (f, g1) \<Rightarrow>
                      (case py_index (function_inputs cfg) f of
                         Inl e \<Rightarrow> Inl e
                       | Inr k \<Rightarrow>
                           (case FunctionGen f (max_inputs cfg) (function_inputs cfg ! k) of
                              Inl e \<Rightarrow> Inl e
                            | Inr gene \<Rightarrow> Inr (gene, g1))))
            else (case OutputGen (max_inputs cfg) of
                    Inl e \<Rightarrow> Inl e
                  | Inr gene \<Rightarrow> Inr (gene, g))) of
        Inl e \<Rightarrow> Inl e
      | Inr (gene, g1) \<Rightarrow>
          if rows cfg = 0 then Inl ZeroDivisionError
          else
            let col = min (node div rows cfg) (cols cfg);
                max_con_id = col * rows cfg + num_input cfg;
                min_con_id = (if col - level_back cfg \<ge> 0
                              then (col - level_back cfg) * rows cfg + num_input cfg else 0)
            in (case init_inputs min_con_id max_con_id [0..<length (inputs gene)] (inputs gene) g1 of
                  Inl e \<Rightarrow> Inl e
                | Inr (ins, g2) \<Rightarrow> Inr (gene\<lparr>inputs := ins\<rparr>, g2)))"

fun init_genes_loop :: "CgpConfig \<Rightarrow> nat list \<Rightarrow> Gen list \<Rightarrow> rng \<Rightarrow> error + (Gen list \<times> rng)" where
  "init_genes_loop cfg [] gs g = Inr (gs, g)"
| "init_genes_loop cfg (node # nodes) gs g =
     (case init_gene cfg (int node) g of
        Inl e \<Rightarrow> Inl e
      | Inr (gene, g') \<Rightarrow> init_genes_loop cfg nodes (gs @ [gene]) g')"

definition init_genes :: "CgpConfig \<Rightarrow> Individual \<Rightarrow> rng \<Rightarrow> error + (Individual \<times> rng)" where
  "init_genes cfg ind g =
     (case init_genes_loop cfg [0..<nat (num_nodes cfg + num_output cfg)] (genes ind) g of
        Inl e \<Rightarrow> Inl e
      | Inr (gs, g') \<Rightarrow>
          (case check_active cfg (ind\<lparr>genes := gs, active := Some (replicate (length gs) False)\<rparr>) of
             Inl e \<Rightarrow> Inl e
           | Inr ind' \<Rightarrow> Inr (ind', g')))"

definition spawn :: "CgpConfig \<Rightarrow> rng \<Rightarrow> error + (Individual \<times> rng)" where
  "spawn cfg g = init_genes cfg Individual_init g"

text \<open>
  \<^verbatim>\<open>clone\<close> copies the mask and deep-copies the genes; as values, the copy equals
  the source. (The store model of the last section keeps the object identities.)
  \<^verbatim>\<open>None.copy()\<close> raises \<^verbatim>\<open>AttributeError\<close>.
\<close>

definition clone :: "Individual \<Rightarrow> error + Individual" where
  "clone ind =
     (case active ind of
        None \<Rightarrow> Inl AttributeError
      | Some a \<Rightarrow>
          Inr \<lparr> genes = genes ind, active = Some a, score = score ind,
                total_params = total_params ind, accuracy = accuracy ind, model = model ind \<rparr>)"

subsection \<open>Mutation\<close>

text \<open>The \<^verbatim>\<open>while\<close> loop of \<^verbatim>\<open>__mutate_function_gene\<close>: draw again while the
  function drawn is the gene's own.\<close>

partial_function (option) mutate_function_gene_while ::
  "CgpConfig \<Rightarrow> Gen \<Rightarrow> int \<Rightarrow> rng \<Rightarrow> (error + (int \<times> rng)) option" where
  "mutate_function_gene_while cfg gene f g =
     (case get_fnc_idx gene of
        Inl e \<Rightarrow> Some (Inl e)
      | Inr cur \<Rightarrow>
          if f = cur
          then (case randint 0 (num_func_genes cfg) g of
                  Inl e \<Rightarrow> Some (Inl e)
                | Inr (f', g') \<Rightarrow> mutate_function_gene_while cfg gene f' g')
          else Some (Inr (f, g)))"

definition mutate_function_gene ::
  "CgpConfig \<Rightarrow> Individual \<Rightarrow> int \<Rightarrow> rng \<Rightarrow> (error + (bool \<times> Individual \<times> rng)) option" where
  "mutate_function_gene cfg ind gene_idx g =
     (case randint 0 (num_func_genes cfg) g of
        Inl e \<Rightarrow> Some (Inl e)
      | Inr (f, g1) \<Rightarrow>
          (case py_index (genes ind) gene_idx of
             Inl e \<Rightarrow> Some (Inl e)
           | Inr k \<Rightarrow>
               (case mutate_function_gene_while cfg (genes ind ! k) f g1 of
                  None \<Rightarrow> None
                | Some (Inl e) \<Rightarrow> Some (Inl e)
                | Some (Inr (f', g2)) \<Rightarrow>
                    (case py_index (function_inputs cfg) f' of
                       Inl e \<Rightarrow> Some (Inl e)
                     | Inr j \<Rightarrow>
                         Some (Inr (True,
                           ind\<lparr>genes := (genes ind)[k := (genes ind ! k)
                                  \<lparr>fnc_idx := Some f', num_inputs := function_inputs cfg ! j\<rparr>]\<rparr>,
                           g2))))))"

text \<open>The \<^verbatim>\<open>while\<close> loop of \<^verbatim>\<open>__mutate_connection_gene\<close>: draw again while the
  value drawn is the slot's own.\<close>

partial_function (option) mutate_connection_gene_while ::
  "int \<Rightarrow> int \<Rightarrow> int \<Rightarrow> int \<Rightarrow> rng \<Rightarrow> (error + (int \<times> rng)) option" where
  "mutate_connection_gene_while min_con_id max_con_id cur n g =
     (if n = cur
      then (case randint 0 (max_con_id - min_con_id) g of
              Inl e \<Rightarrow> Some (Inl e)
            | Inr (r, g') \<Rightarrow>
                mutate_connection_gene_while min_con_id max_con_id cur (min_con_id + r) g')
      else Some (Inr (n, g)))"

text \<open>The \<^verbatim>\<open>for\<close> loop over the used slots of gene \<open>k\<close>: the first slot the coin
  selects is rewritten and the loop returns.\<close>

fun mutate_connection_gene_for ::
  "int \<Rightarrow> int \<Rightarrow> Individual \<Rightarrow> nat \<Rightarrow> nat list \<Rightarrow> rng \<Rightarrow> (error + (bool \<times> Individual \<times> rng)) option" where
  "mutate_connection_gene_for min_con_id max_con_id ind k [] g = Some (Inr (False, ind, g))"
| "mutate_connection_gene_for min_con_id max_con_id ind k (i # slots) g =
     (case randint 0 2 g of
        Inl e \<Rightarrow> Some (Inl e)
      | Inr (coin, g1) \<Rightarrow>
          if coin \<noteq> 0 \<and> max_con_id - min_con_id > 1
          then (case randint 0 (max_con_id - min_con_id) g1 of
                  Inl e \<Rightarrow> Some (Inl e)
                | Inr (r, g2) \<Rightarrow>
                    (case py_index (inputs (genes ind ! k)) (int i) of
                       Inl e \<Rightarrow> Some (Inl e)
                     | Inr c \<Rightarrow>
                         (case mutate_connection_gene_while min_con_id max_con_id
                                 (inputs (genes ind ! k) ! c) (min_con_id + r) g2 of
                            None \<Rightarrow> None
                          | Some (Inl e) \<Rightarrow> Some (Inl e)
                          | Some (Inr (n, g3)) \<Rightarrow>
                              Some (Inr (True,
                                ind\<lparr>genes := (genes ind)[k := (genes ind ! k)
                                       \<lparr>inputs := (inputs (genes ind ! k))[c := n]\<rparr>]\<rparr>,
                                g3)))))
          else mutate_connection_gene_for min_con_id max_con_id ind k slots g1)"

definition mutate_connection_gene ::
  "CgpConfig \<Rightarrow> Individual \<Rightarrow> int \<Rightarrow> rng \<Rightarrow> (error + (bool \<times> Individual \<times> rng)) option" where
  "mutate_connection_gene cfg ind gene_idx g =
     (if rows cfg = 0 then Some (Inl ZeroDivisionError)
      else
        let col = min (gene_idx div rows cfg) (cols cfg);
            max_con_id = col * rows cfg + num_input cfg;
            min_con_id = (if col - level_back cfg \<ge> 0
                          then (col - level_back cfg) * rows cfg + num_input cfg else 0)
        in (case py_index (genes ind) gene_idx of
              Inl e \<Rightarrow> Some (Inl e)
            | Inr k \<Rightarrow>
                mutate_connection_gene_for min_con_id max_con_id ind k
                  [0..<nat (num_inputs (genes ind ! k))] g))"

text \<open>
  The bound \<^verbatim>\<open>int(num_genes * self.config.mutation_rate)\<close> of the loop of
  \<^verbatim>\<open>mutate\<close>: a float product, truncated.
\<close>

definition mutation_budget :: "CgpConfig \<Rightarrow> int \<Rightarrow> error + int" where
  "mutation_budget cfg num_genes =
     (case int_mul_float num_genes (mutation_rate cfg) of
        Inl e \<Rightarrow> Inl e
      | Inr x \<Rightarrow> py_int x)"

text \<open>
  The \<^verbatim>\<open>while cnt <= int(num_genes * mutation_rate)\<close> loop of \<^verbatim>\<open>mutate\<close>; the
  bound is computed at every test. It returns the final count with the mutated
  individual; \<^verbatim>\<open>cnt += True\<close> adds one.
\<close>

partial_function (option) mutate_while ::
  "CgpConfig \<Rightarrow> int \<Rightarrow> int \<Rightarrow> Individual \<Rightarrow> rng \<Rightarrow> (error + (int \<times> Individual \<times> rng)) option" where
  "mutate_while cfg num_genes cnt ind g =
     (case mutation_budget cfg num_genes of
        Inl e \<Rightarrow> Some (Inl e)
      | Inr bound \<Rightarrow>
          if cnt \<le> bound
          then (case randint 0 num_genes g of
                  Inl e \<Rightarrow> Some (Inl e)
                | Inr (idx, g1) \<Rightarrow>
                    (case (if idx < num_nodes cfg then mutate_function_gene cfg ind idx g1
                           else Some (Inr (False, ind, g1))) of
                       None \<Rightarrow> None
                     | Some (Inl e) \<Rightarrow> Some (Inl e)
                     | Some (Inr (b1, ind1, g2)) \<Rightarrow>
                         (case mutate_connection_gene cfg ind1 idx g2 of
                            None \<Rightarrow> None
                          | Some (Inl e) \<Rightarrow> Some (Inl e)
                          | Some (Inr (b2, ind2, g3)) \<Rightarrow>
                              mutate_while cfg num_genes (cnt + of_bool b1 + of_bool b2) ind2 g3)))
          else Some (Inr (cnt, ind, g)))"

text \<open>
  \<^verbatim>\<open>mutate\<close>. With \<open>force\<close>, the mask held before the loop is compared with the
  recomputed one, and the method calls itself when they are equal.
\<close>

partial_function (option) mutate ::
  "CgpConfig \<Rightarrow> bool \<Rightarrow> Individual \<Rightarrow> rng \<Rightarrow> (error + (Individual \<times> rng)) option" where
  "mutate cfg force ind g =
     (case (if \<not> is_spawned ind then init_genes cfg ind g else Inr (ind, g)) of
        Inl e \<Rightarrow> Some (Inl e)
      | Inr (ind0, g0) \<Rightarrow>
          (case mutate_while cfg (int (length (genes ind0))) 0 ind0 g0 of
             None \<Rightarrow> None
           | Some (Inl e) \<Rightarrow> Some (Inl e)
           | Some (Inr (cnt, ind1, g1)) \<Rightarrow>
               (case check_active cfg ind1 of
                  Inl e \<Rightarrow> Some (Inl e)
                | Inr ind2 \<Rightarrow>
                    if force \<and> active ind2 = active ind0 then mutate cfg force ind2 g1
                    else Some (Inr (ind2, g1)))))"

subsection \<open>The legal range and the layout of the genes\<close>

text \<open>
  The legal range follows the words of the specification (section 4.1):
  \<open>col = min(position / rows, cols)\<close>, \<open>max_id = col * rows + num_inputs\<close>, and
  \<open>min_id = 0\<close> if \<open>col - level_back < 0\<close>, else
  \<open>(col - level_back) * rows + num_inputs\<close>. The source computes the same bounds in
  line, in \<^verbatim>\<open>init_genes\<close> and in \<^verbatim>\<open>__mutate_connection_gene\<close>.
\<close>

definition legal_range :: "CgpConfig \<Rightarrow> int \<Rightarrow> int \<times> int" where
  "legal_range cfg position =
     (let col = min (position div rows cfg) (cols cfg)
      in (if col - level_back cfg < 0 then 0
          else (col - level_back cfg) * rows cfg + num_input cfg,
          col * rows cfg + num_input cfg))"

definition in_legal_range :: "CgpConfig \<Rightarrow> int \<Rightarrow> int \<Rightarrow> bool" where
  "in_legal_range cfg position c =
     (fst (legal_range cfg position) \<le> c \<and> c < snd (legal_range cfg position))"

text \<open>The live connections of a gene are the first \<^verbatim>\<open>num_inputs\<close> slots of its array.\<close>

definition live_connections :: "Gen \<Rightarrow> int list" where
  "live_connections gene = take (nat (num_inputs gene)) (inputs gene)"

definition connections_legal :: "CgpConfig \<Rightarrow> Individual \<Rightarrow> bool" where
  "connections_legal cfg ind =
     list_all (\<lambda>(k, gene). list_all (in_legal_range cfg (int k)) (live_connections gene))
       (enumerate 0 (genes ind))"

text \<open>
  What a connection value \<open>c\<close> of the gene at \<open>position\<close> refers to: an external input,
  or the grid node \<open>c - num_input\<close>, whose column is its index divided by the number of
  rows; that column is before the gene's own and at most \<open>level_back\<close> columns back.
\<close>

definition refers_back :: "CgpConfig \<Rightarrow> int \<Rightarrow> int \<Rightarrow> bool" where
  "refers_back cfg position c =
     (let col = min (position div rows cfg) (cols cfg)
      in (0 \<le> c \<and> c < num_input cfg)
         \<or> (num_input cfg \<le> c \<and> (c - num_input cfg) div rows cfg < col
            \<and> col - level_back cfg \<le> (c - num_input cfg) div rows cfg))"

definition connections_refer_back :: "CgpConfig \<Rightarrow> Individual \<Rightarrow> bool" where
  "connections_refer_back cfg ind =
     list_all (\<lambda>(k, gene). list_all (refers_back cfg (int k)) (live_connections gene))
       (enumerate 0 (genes ind))"

text \<open>
  The layout: a function gene has the attribute \<^verbatim>\<open>fnc_idx\<close>, an output gene does not;
  the first \<open>num_nodes\<close> positions hold function genes and the rest output genes.
\<close>

definition is_function_gene :: "Gen \<Rightarrow> bool" where
  "is_function_gene gene = (\<not> is_output gene \<and> fnc_idx gene \<noteq> None)"

definition is_output_gene :: "Gen \<Rightarrow> bool" where
  "is_output_gene gene = (is_output gene \<and> fnc_idx gene = None)"

definition layout :: "CgpConfig \<Rightarrow> Individual \<Rightarrow> bool" where
  "layout cfg ind =
     (length (genes ind) = nat (num_nodes cfg + num_output cfg)
      \<and> list_all (\<lambda>(k, gene). if int k < num_nodes cfg then is_function_gene gene
                               else is_output_gene gene)
          (enumerate 0 (genes ind)))"

text \<open>
  The individuals a program can hold: a new one, a spawned one, and what \<open>mutate\<close>,
  \<open>clone\<close> and the evaluator's wrapper make of them.
\<close>

inductive reachable :: "CgpConfig \<Rightarrow> Individual \<Rightarrow> bool" for cfg :: CgpConfig where
  reachable_new: "reachable cfg Individual_init"
| reachable_spawn: "spawn cfg g = Inr (ind, g') \<Longrightarrow> reachable cfg ind"
| reachable_mutate:
    "reachable cfg ind \<Longrightarrow> mutate cfg force ind g = Some (Inr (ind', g')) \<Longrightarrow> reachable cfg ind'"
| reachable_clone: "reachable cfg ind \<Longrightarrow> clone ind = Inr ind' \<Longrightarrow> reachable cfg ind'"
| reachable_evaluated:
    "reachable cfg ind \<Longrightarrow>
     reachable cfg (ind\<lparr>score := s, total_params := tp, accuracy := a, model := m\<rparr>)"

text \<open>The invariant that the proofs carry through initialisation and mutation.\<close>

definition genes_ok :: "CgpConfig \<Rightarrow> Gen list \<Rightarrow> bool" where
  "genes_ok cfg gs =
     (\<forall>k < length gs.
        (if int k < num_nodes cfg then is_function_gene (gs ! k) else is_output_gene (gs ! k))
        \<and> (\<forall>c \<in> set (inputs (gs ! k)). in_legal_range cfg (int k) c))"

definition individual_ok :: "CgpConfig \<Rightarrow> Individual \<Rightarrow> bool" where
  "individual_ok cfg ind =
     (genes_ok cfg (genes ind)
      \<and> (if is_spawned ind then length (genes ind) = nat (num_nodes cfg + num_output cfg)
         else genes ind = []))"

subsection \<open>Mutation events and the budget of the specification\<close>





subsection \<open>The evolution loop\<close>

text \<open>
  The evaluator and the comparator \<^verbatim>\<open>evaluator.trainer.comp\<close> are supplied by the
  caller of \<^verbatim>\<open>run\<close>; they are parameters here. The evaluator returns score,
  parameter count, model handle and accuracy, which \<^verbatim>\<open>__evaluator_wrapper\<close> writes
  onto the child.
\<close>

type_synonym evaluator = "Individual \<Rightarrow> int \<Rightarrow> int \<Rightarrow> real \<times> real \<times> nat \<times> real"

type_synonym comparator = "real option \<Rightarrow> real option \<Rightarrow> bool"

definition evaluator_wrapper :: "evaluator \<Rightarrow> Individual \<Rightarrow> int \<Rightarrow> int \<Rightarrow> Individual" where
  "evaluator_wrapper ev child index epoch =
     (case ev child index epoch of
        (s, tp, m, a) \<Rightarrow>
          child\<lparr>score := Some s, total_params := Some tp, model := Some m, accuracy := Some a\<rparr>)"

text \<open>
  The state of \<^verbatim>\<open>run\<close>: the parent, the generation counter, and what the loop does
  to its collaborators, in order: the \<open>(index, epoch)\<close> arguments of every evaluator
  call and the \<open>(child number, score)\<close> arguments of every \<^verbatim>\<open>improved\<close> call.
  Printing and the files written along the way (\<^verbatim>\<open>mocga.txt\<close>, \<^verbatim>\<open>model.json\<close>) are
  left out.
\<close>

record run_state =
  parent :: Individual
  current_epoch :: int
  evaluator_calls :: "(int \<times> int) list"
  improved_calls :: "(int \<times> real option) list"

text \<open>The first \<^verbatim>\<open>for\<close> loop of a generation: clone, mutate, evaluate, store.\<close>

fun generate_children ::
  "CgpConfig \<Rightarrow> evaluator \<Rightarrow> bool \<Rightarrow> nat list \<Rightarrow> Individual list \<Rightarrow> run_state \<Rightarrow> rng
   \<Rightarrow> (error + (Individual list \<times> run_state \<times> rng)) option" where
  "generate_children cfg ev force_mutate [] children st g = Some (Inr (children, st, g))"
| "generate_children cfg ev force_mutate (i # rest) children st g =
     (case clone (parent st) of
        Inl e \<Rightarrow> Some (Inl e)
      | Inr mutated \<Rightarrow>
          (case mutate cfg force_mutate mutated g of
             None \<Rightarrow> None
           | Some (Inl e) \<Rightarrow> Some (Inl e)
           | Some (Inr (mutated', g')) \<Rightarrow>
               generate_children cfg ev force_mutate rest
                 (children @ [evaluator_wrapper ev mutated' (int i + 1) (current_epoch st + 1)])
                 (st\<lparr>evaluator_calls :=
                       evaluator_calls st @ [(int i + 1, current_epoch st + 1)]\<rparr>)
                 g'))"

text \<open>
  The last \<^verbatim>\<open>for\<close> loop of a generation, over \<^verbatim>\<open>enumerate(children)\<close>. Comparing
  \<^verbatim>\<open>None > 0\<close> raises \<^verbatim>\<open>TypeError\<close>. The statement \<^verbatim>\<open>current_epoch += 1\<close> stands
  in the body of this loop.
\<close>

fun select_loop :: "comparator \<Rightarrow> run_state \<Rightarrow> (nat \<times> Individual) list \<Rightarrow> error + run_state" where
  "select_loop cmp st [] = Inr st"
| "select_loop cmp st ((idx, child) # rest) =
     (case score child of
        None \<Rightarrow> Inl TypeError
      | Some s \<Rightarrow>
          select_loop cmp
            ((if s > 0 \<and> cmp (score (parent st)) (score child)
              then st\<lparr>parent := child,
                      improved_calls := improved_calls st @ [(int idx + 1, score child)]\<rparr>
              else st)
             \<lparr>current_epoch := current_epoch st + 1\<rparr>)
            rest)"

partial_function (option) run_while ::
  "CgpConfig \<Rightarrow> evaluator \<Rightarrow> comparator \<Rightarrow> int \<Rightarrow> int \<Rightarrow> bool \<Rightarrow> run_state \<Rightarrow> rng
   \<Rightarrow> (error + (run_state \<times> rng)) option" where
  "run_while cfg ev cmp num_children max_epochs force_mutate st g =
     (if current_epoch st < max_epochs
      then (case generate_children cfg ev force_mutate [0..<nat num_children] [] st g of
              None \<Rightarrow> None
            | Some (Inl e) \<Rightarrow> Some (Inl e)
            | Some (Inr (children, st1, g1)) \<Rightarrow>
                (case select_loop cmp st1 (enumerate 0 children) of
                   Inl e \<Rightarrow> Some (Inl e)
                 | Inr st2 \<Rightarrow> run_while cfg ev cmp num_children max_epochs force_mutate st2 g1))
      else Some (Inr (st, g)))"

text \<open>
  \<^verbatim>\<open>CGP.run\<close>; \<open>p\<close> is \<^verbatim>\<open>self.parent\<close> as \<^verbatim>\<open>load_parent\<close> left it. Without a
  parent, one is spawned and evaluated with index 0 and epoch 0.
\<close>

definition run ::
  "CgpConfig \<Rightarrow> int \<Rightarrow> Individual option \<Rightarrow> evaluator \<Rightarrow> comparator \<Rightarrow> int \<Rightarrow> bool \<Rightarrow> rng
   \<Rightarrow> (error + (run_state \<times> rng)) option" where
  "run cfg num_children p ev cmp max_epochs force_mutate g =
     (case p of
        None \<Rightarrow>
          (case spawn cfg g of
             Inl e \<Rightarrow> Some (Inl e)
           | Inr (ind, g') \<Rightarrow>
               run_while cfg ev cmp num_children max_epochs force_mutate
                 \<lparr> parent = evaluator_wrapper ev ind 0 0, current_epoch = 0,
                   evaluator_calls = [(0, 0)], improved_calls = [] \<rparr> g')
      | Some ind \<Rightarrow>
          run_while cfg ev cmp num_children max_epochs force_mutate
            \<lparr> parent = ind, current_epoch = 0, evaluator_calls = [], improved_calls = [] \<rparr> g)"

subsection \<open>Loading a parent\<close>

text \<open>
  What \<^verbatim>\<open>load_parent\<close> can find at a path: nothing, a file that \<^verbatim>\<open>pickle.load\<close>
  rejects, or a pickled object. Of an object that is not an \<^verbatim>\<open>Individual\<close> only
  its \<^verbatim>\<open>score\<close> attribute matters, which may be missing, may be something that
  \<^verbatim>\<open>%.4f\<close> cannot format, or a number.
\<close>

datatype score_attr = NoScore | ScoreNotANumber | ScoreNumber real

datatype py_object = IndividualObject Individual | OtherObject score_attr

datatype file_content = NotAPickle | Pickle py_object

type_synonym filesystem = "string \<Rightarrow> file_content option"

datatype load_error = UnpicklingError | LoadAttributeError | LoadTypeError

text \<open>
  \<^verbatim>\<open>load_parent\<close> returns the parent (or \<^verbatim>\<open>None\<close>) and the warnings it issued. The
  \<^verbatim>\<open>print\<close> of \<^verbatim>\<open>instance.score\<close> comes before the \<^verbatim>\<open>isinstance\<close> test.
\<close>

definition load_parent :: "filesystem \<Rightarrow> string option \<Rightarrow> load_error + (Individual option \<times> string list)" where
  "load_parent fs filename =
     (case filename of
        None \<Rightarrow> Inr (None, [])
      | Some path \<Rightarrow>
          (case fs path of
             None \<Rightarrow> Inr (None, [])
           | Some NotAPickle \<Rightarrow> Inl UnpicklingError
           | Some (Pickle instance) \<Rightarrow>
               (case (case instance of
                        IndividualObject ind \<Rightarrow>
                          (case score ind of None \<Rightarrow> ScoreNotANumber | Some x \<Rightarrow> ScoreNumber x)
                      | OtherObject a \<Rightarrow> a) of
                  NoScore \<Rightarrow> Inl LoadAttributeError
                | ScoreNotANumber \<Rightarrow> Inl LoadTypeError
                | ScoreNumber x \<Rightarrow>
                    (case instance of
                       OtherObject a \<Rightarrow> Inr (None, [''parent is not a valid Individual instance''])
                     | IndividualObject ind \<Rightarrow> Inr (Some ind, [])))))"

subsection \<open>Pareto ranking\<close>

text \<open>
  \<^verbatim>\<open>fast_non_dominated_sort\<close> reads only \<^verbatim>\<open>score\<close> and \<^verbatim>\<open>total_params\<close> of the
  individuals and tests membership with \<^verbatim>\<open>in\<close>, which for \<^verbatim>\<open>Individual\<close> is object
  identity. The population is therefore a list of object references, with the two
  objectives of the (evaluated) object behind each reference.
\<close>

type_synonym ref = nat

type_synonym objectives = "ref \<Rightarrow> real \<times> real"

text \<open>The three-way test of the source, on \<open>(score, total_params)\<close> pairs.\<close>

definition dominates :: "real \<times> real \<Rightarrow> real \<times> real \<Rightarrow> bool" where
  "dominates a b =
     ((fst a > fst b \<and> snd a < snd b) \<or> (fst a \<ge> fst b \<and> snd a < snd b)
      \<or> (fst a > fst b \<and> snd a \<le> snd b))"

text \<open>The loop over \<open>q\<close> for one \<open>p\<close>: it builds \<^verbatim>\<open>S[p]\<close> and \<^verbatim>\<open>n[p]\<close>.\<close>

fun count_dominated ::
  "objectives \<Rightarrow> ref list \<Rightarrow> nat \<Rightarrow> nat list \<Rightarrow> ref list \<times> int \<Rightarrow> ref list \<times> int" where
  "count_dominated h pop p [] acc = acc"
| "count_dominated h pop p (q # qs) (Sp, np) =
     count_dominated h pop p qs
       (if dominates (h (pop ! p)) (h (pop ! q))
        then (if pop ! q \<in> set Sp then Sp else Sp @ [pop ! q], np)
        else if dominates (h (pop ! q)) (h (pop ! p)) then (Sp, np + 1)
        else (Sp, np))"

text \<open>The loop over \<open>p\<close>; the state is \<^verbatim>\<open>S\<close>, \<^verbatim>\<open>front[0]\<close>, \<^verbatim>\<open>n\<close> and \<^verbatim>\<open>rank\<close>.\<close>

fun first_pass ::
  "objectives \<Rightarrow> ref list \<Rightarrow> nat list \<Rightarrow> ref list list \<times> ref list \<times> int list \<times> int list
   \<Rightarrow> ref list list \<times> ref list \<times> int list \<times> int list" where
  "first_pass h pop [] st = st"
| "first_pass h pop (p # ps) (S, front0, n, rank) =
     (case count_dominated h pop p [0..<length pop] ([], 0) of
        (Sp, np) \<Rightarrow>
          first_pass h pop ps
            (S[p := Sp],
             (if np = 0 \<and> pop ! p \<notin> set front0 then front0 @ [pop ! p] else front0),
             n[p := np],
             (if np = 0 then rank[p := 0] else rank)))"

text \<open>
  The peel step for one member of the current front: the loop
  \<^verbatim>\<open>for q in range(0, len(S))\<close> decrements every count.
\<close>

fun peel_member ::
  "ref list \<Rightarrow> int \<Rightarrow> nat list \<Rightarrow> int list \<times> int list \<times> ref list \<Rightarrow> int list \<times> int list \<times> ref list" where
  "peel_member pop i [] st = st"
| "peel_member pop i (q # qs) (n, rank, Q) =
     peel_member pop i qs
       (n[q := n ! q - 1],
        (if n ! q - 1 = 0 then rank[q := i + 1] else rank),
        (if n ! q - 1 = 0 \<and> pop ! q \<notin> set Q then Q @ [pop ! q] else Q))"

fun peel_front ::
  "ref list \<Rightarrow> int \<Rightarrow> nat \<Rightarrow> ref list \<Rightarrow> int list \<times> int list \<times> ref list \<Rightarrow> int list \<times> int list \<times> ref list" where
  "peel_front pop i len [] st = st"
| "peel_front pop i len (p # ps) st = peel_front pop i len ps (peel_member pop i [0..<len] st)"

partial_function (option) peel_while ::
  "ref list \<Rightarrow> nat \<Rightarrow> ref list list \<Rightarrow> int list \<Rightarrow> int list \<Rightarrow> nat \<Rightarrow> ref list list option" where
  "peel_while pop len front n rank i =
     (if front ! i \<noteq> []
      then (case peel_front pop (int i) len (front ! i) (n, rank, []) of
              (n', rank', Q) \<Rightarrow> peel_while pop len (front @ [Q]) n' rank' (i + 1))
      else Some front)"

definition fast_non_dominated_sort :: "objectives \<Rightarrow> ref list \<Rightarrow> ref list list option" where
  "fast_non_dominated_sort h non_sort_genomes =
     (case first_pass h non_sort_genomes [0..<length non_sort_genomes]
             (replicate (length non_sort_genomes) [], [],
              replicate (length non_sort_genomes) 0, replicate (length non_sort_genomes) 0) of
        (S, front0, n, rank) \<Rightarrow>
          map_option butlast (peel_while non_sort_genomes (length S) [front0] n rank 0))"

subsection \<open>The object store: cloning and mutation in place\<close>

text \<open>
  For the question what a mutation of a clone does to its source, objects have
  identities. The store holds the \<^verbatim>\<open>Individual\<close> objects, the Python lists behind
  \<^verbatim>\<open>genes\<close>, the gene objects, and the numpy arrays (\<^verbatim>\<open>inputs\<close> of a gene, the
  \<^verbatim>\<open>active\<close> mask), each under its address; fields that refer to an object hold its
  address. \<open>next_addr\<close> is the first address not yet given out. Reading through an
  address that holds nothing cannot happen in Python; the functions below answer it
  with \<^verbatim>\<open>TypeError\<close>.
\<close>

type_synonym addr = nat

record gen_obj =
  o_is_output :: bool
  o_fnc_idx :: "int option"
  o_inputs :: addr
  o_num_inputs :: int

record ind_obj =
  i_genes :: addr
  i_active :: "addr option"
  i_score :: "real option"
  i_total_params :: "real option"
  i_accuracy :: "real option"
  i_model :: "nat option"

record store =
  individuals :: "addr \<Rightarrow> ind_obj option"
  gene_lists :: "addr \<Rightarrow> addr list option"
  gene_objs :: "addr \<Rightarrow> gen_obj option"
  int_arrays :: "addr \<Rightarrow> int list option"
  bool_arrays :: "addr \<Rightarrow> bool list option"
  next_addr :: addr

definition empty_store :: store where
  "empty_store =
     \<lparr> individuals = (\<lambda>a. None), gene_lists = (\<lambda>a. None), gene_objs = (\<lambda>a. None),
       int_arrays = (\<lambda>a. None), bool_arrays = (\<lambda>a. None), next_addr = 0 \<rparr>"

text \<open>What an individual object stands for: its genes and mask as values.\<close>

definition view_gene :: "store \<Rightarrow> addr \<Rightarrow> Gen option" where
  "view_gene st a =
     (case gene_objs st a of
        None \<Rightarrow> None
      | Some gobj \<Rightarrow>
          (case int_arrays st (o_inputs gobj) of
             None \<Rightarrow> None
           | Some xs \<Rightarrow>
               Some \<lparr> is_output = o_is_output gobj, fnc_idx = o_fnc_idx gobj, inputs = xs,
                      num_inputs = o_num_inputs gobj \<rparr>))"

definition view :: "store \<Rightarrow> addr \<Rightarrow> Individual option" where
  "view st p =
     (case individuals st p of
        None \<Rightarrow> None
      | Some io \<Rightarrow>
          (case gene_lists st (i_genes io) of
             None \<Rightarrow> None
           | Some l \<Rightarrow>
               (case those (map (view_gene st) l) of
                  None \<Rightarrow> None
                | Some gs \<Rightarrow>
                    (case i_active io of
                       None \<Rightarrow>
                         Some \<lparr> genes = gs, active = None, score = i_score io,
                                total_params = i_total_params io, accuracy = i_accuracy io,
                                model = i_model io \<rparr>
                     | Some am \<Rightarrow>
                         (case bool_arrays st am of
                            None \<Rightarrow> None
                          | Some act \<Rightarrow>
                              Some \<lparr> genes = gs, active = Some act, score = i_score io,
                                     total_params = i_total_params io,
                                     accuracy = i_accuracy io, model = i_model io \<rparr>)))))"

text \<open>Allocation of a new object.\<close>

definition new_int_array :: "int list \<Rightarrow> store \<Rightarrow> addr \<times> store" where
  "new_int_array xs st =
     (next_addr st,
      st\<lparr>int_arrays := (int_arrays st)(next_addr st := Some xs), next_addr := Suc (next_addr st)\<rparr>)"

definition new_bool_array :: "bool list \<Rightarrow> store \<Rightarrow> addr \<times> store" where
  "new_bool_array bs st =
     (next_addr st,
      st\<lparr>bool_arrays := (bool_arrays st)(next_addr st := Some bs), next_addr := Suc (next_addr st)\<rparr>)"

definition new_gene :: "gen_obj \<Rightarrow> store \<Rightarrow> addr \<times> store" where
  "new_gene gobj st =
     (next_addr st,
      st\<lparr>gene_objs := (gene_objs st)(next_addr st := Some gobj), next_addr := Suc (next_addr st)\<rparr>)"

definition new_list :: "addr list \<Rightarrow> store \<Rightarrow> addr \<times> store" where
  "new_list l st =
     (next_addr st,
      st\<lparr>gene_lists := (gene_lists st)(next_addr st := Some l), next_addr := Suc (next_addr st)\<rparr>)"

text \<open>\<^verbatim>\<open>Individual.__init__\<close>: a new object with a new empty list of genes.\<close>

definition new_individual :: "store \<Rightarrow> addr \<times> store" where
  "new_individual st =
     (case new_list [] st of
        (l, st1) \<Rightarrow>
          (next_addr st1,
           st1\<lparr>individuals := (individuals st1)(next_addr st1 :=
                  Some \<lparr> i_genes = l, i_active = None, i_score = None, i_total_params = None,
                         i_accuracy = None, i_model = None \<rparr>),
               next_addr := Suc (next_addr st1)\<rparr>))"

text \<open>Reading \<^verbatim>\<open>self.genes\<close>, \<^verbatim>\<open>self.genes[idx]\<close> and \<^verbatim>\<open>self.active\<close>.\<close>

definition self_genes :: "store \<Rightarrow> addr \<Rightarrow> error + (addr \<times> addr list)" where
  "self_genes st self =
     (case individuals st self of
        None \<Rightarrow> Inl TypeError
      | Some io \<Rightarrow>
          (case gene_lists st (i_genes io) of
             None \<Rightarrow> Inl TypeError
           | Some l \<Rightarrow> Inr (i_genes io, l)))"

definition self_gene :: "store \<Rightarrow> addr \<Rightarrow> int \<Rightarrow> error + (addr \<times> gen_obj)" where
  "self_gene st self idx =
     (case self_genes st self of
        Inl e \<Rightarrow> Inl e
      | Inr (la, l) \<Rightarrow>
          (case py_index l idx of
             Inl e \<Rightarrow> Inl e
           | Inr k \<Rightarrow>
               (case gene_objs st (l ! k) of
                  None \<Rightarrow> Inl TypeError
                | Some gobj \<Rightarrow> Inr (l ! k, gobj))))"

definition self_active :: "store \<Rightarrow> addr \<Rightarrow> error + (addr \<times> bool list)" where
  "self_active st self =
     (case individuals st self of
        None \<Rightarrow> Inl TypeError
      | Some io \<Rightarrow>
          (case i_active io of
             None \<Rightarrow> Inl TypeError
           | Some am \<Rightarrow>
               (case bool_arrays st am of
                  None \<Rightarrow> Inl TypeError
                | Some act \<Rightarrow> Inr (am, act))))"

definition is_spawned_h :: "store \<Rightarrow> addr \<Rightarrow> bool" where
  "is_spawned_h st self =
     (case individuals st self of None \<Rightarrow> False | Some io \<Rightarrow> i_active io \<noteq> None)"

text \<open>
  \<^verbatim>\<open>__walk_to_out\<close> and \<^verbatim>\<open>check_active\<close> on the store: the only writes are to the
  mask array of \<open>self\<close>.
\<close>

fun walk_to_out_h :: "nat \<Rightarrow> CgpConfig \<Rightarrow> addr \<Rightarrow> store \<Rightarrow> int \<Rightarrow> error + store" where
  "walk_to_out_h 0 cfg self st node = Inl RecursionError"
| "walk_to_out_h (Suc d) cfg self st node =
     (case self_active st self of
        Inl e \<Rightarrow> Inl e
      | Inr (am, act) \<Rightarrow>
          (case py_index act node of
             Inl e \<Rightarrow> Inl e
           | Inr k \<Rightarrow>
               if act ! k then Inr st
               else
                 (case self_gene (st\<lparr>bool_arrays := (bool_arrays st)(am := Some (act[k := True]))\<rparr>)
                         self node of
                    Inl e \<Rightarrow> Inl e
                  | Inr (ga, gobj) \<Rightarrow>
                      fold (\<lambda>i r.
                          case r of
                            Inl e \<Rightarrow> Inl e
                          | Inr s \<Rightarrow>
                              (case self_gene s self node of
                                 Inl e \<Rightarrow> Inl e
                               | Inr (ga', gobj') \<Rightarrow>
                                   (case int_arrays s (o_inputs gobj') of
                                      None \<Rightarrow> Inl TypeError
                                    | Some ins \<Rightarrow>
                                        (case py_index ins (int i) of
                                           Inl e \<Rightarrow> Inl e
                                         | Inr c \<Rightarrow>
                                             if ins ! c \<ge> num_input cfg
                                             then walk_to_out_h d cfg self s (ins ! c - num_input cfg)
                                             else Inr s))))
                        [0..<nat (o_num_inputs gobj)]
                        (Inr (st\<lparr>bool_arrays := (bool_arrays st)(am := Some (act[k := True]))\<rparr>)))))"

definition check_active_h :: "CgpConfig \<Rightarrow> addr \<Rightarrow> store \<Rightarrow> error + store" where
  "check_active_h cfg self st =
     (case self_active st self of
        Inl e \<Rightarrow> Inl e
      | Inr (am, act) \<Rightarrow>
          fold (\<lambda>node r.
              case r of
                Inl e \<Rightarrow> Inl e
              | Inr s \<Rightarrow> walk_to_out_h (Suc (length act)) cfg self s (num_nodes cfg + int node))
            [0..<nat (num_output cfg)]
            (Inr (st\<lparr>bool_arrays := (bool_arrays st)(am := Some (replicate (length act) False))\<rparr>)))"

text \<open>
  \<^verbatim>\<open>init_genes\<close> on the store. A gene under construction is referred to by nothing
  else, so its value is computed by \<open>init_gene\<close> and then stored as a new array and a
  new gene object, which is appended to the list of \<open>self\<close>.
\<close>

fun init_genes_loop_h ::
  "CgpConfig \<Rightarrow> addr \<Rightarrow> nat list \<Rightarrow> store \<Rightarrow> rng \<Rightarrow> error + (store \<times> rng)" where
  "init_genes_loop_h cfg self [] st g = Inr (st, g)"
| "init_genes_loop_h cfg self (node # nodes) st g =
     (case init_gene cfg (int node) g of
        Inl e \<Rightarrow> Inl e
      | Inr (gene, g') \<Rightarrow>
          (case new_int_array (inputs gene) st of
             (ia, st1) \<Rightarrow>
               (case new_gene \<lparr> o_is_output = is_output gene, o_fnc_idx = fnc_idx gene,
                                o_inputs = ia, o_num_inputs = num_inputs gene \<rparr> st1 of
                  (ga, st2) \<Rightarrow>
                    (case self_genes st2 self of
                       Inl e \<Rightarrow> Inl e
                     | Inr (la, l) \<Rightarrow>
                         init_genes_loop_h cfg self nodes
                           (st2\<lparr>gene_lists := (gene_lists st2)(la := Some (l @ [ga]))\<rparr>) g'))))"

definition init_genes_h :: "CgpConfig \<Rightarrow> addr \<Rightarrow> store \<Rightarrow> rng \<Rightarrow> error + (store \<times> rng)" where
  "init_genes_h cfg self st g =
     (case init_genes_loop_h cfg self [0..<nat (num_nodes cfg + num_output cfg)] st g of
        Inl e \<Rightarrow> Inl e
      | Inr (st1, g') \<Rightarrow>
          (case self_genes st1 self of
             Inl e \<Rightarrow> Inl e
           | Inr (la, l) \<Rightarrow>
               (case new_bool_array (replicate (length l) False) st1 of
                  (am, st2) \<Rightarrow>
                    (case individuals st2 self of
                       None \<Rightarrow> Inl TypeError
                     | Some io \<Rightarrow>
                         (case check_active_h cfg self
                                 (st2\<lparr>individuals := (individuals st2)(self :=
                                        Some (io\<lparr>i_active := Some am\<rparr>))\<rparr>) of
                            Inl e \<Rightarrow> Inl e
                          | Inr st3 \<Rightarrow> Inr (st3, g'))))))"

definition spawn_h :: "CgpConfig \<Rightarrow> store \<Rightarrow> rng \<Rightarrow> error + (addr \<times> store \<times> rng)" where
  "spawn_h cfg st g =
     (case new_individual st of
        (p, st1) \<Rightarrow>
          (case init_genes_h cfg p st1 g of
             Inl e \<Rightarrow> Inl e
           | Inr (st2, g') \<Rightarrow> Inr (p, st2, g')))"

text \<open>
  \<^verbatim>\<open>clone\<close> on the store. \<^verbatim>\<open>deepcopy(self.genes)\<close> makes a new list of new gene
  objects with new input arrays; an object met a second time is copied once (the memo
  of \<^verbatim>\<open>deepcopy\<close>), here one memo for the gene objects and one for their arrays.
\<close>

fun deepcopy_genes ::
  "addr list \<Rightarrow> (addr \<Rightarrow> addr option) \<Rightarrow> (addr \<Rightarrow> addr option) \<Rightarrow> store
   \<Rightarrow> error + (addr list \<times> store)" where
  "deepcopy_genes [] memo_g memo_a st = Inr ([], st)"
| "deepcopy_genes (a # rest) memo_g memo_a st =
     (case memo_g a of
        Some a' \<Rightarrow>
          (case deepcopy_genes rest memo_g memo_a st of
             Inl e \<Rightarrow> Inl e
           | Inr (l, st') \<Rightarrow> Inr (a' # l, st'))
      | None \<Rightarrow>
          (case gene_objs st a of
             None \<Rightarrow> Inl TypeError
           | Some gobj \<Rightarrow>
               (case (case memo_a (o_inputs gobj) of
                        Some ia' \<Rightarrow> Inr (ia', st, memo_a)
                      | None \<Rightarrow>
                          (case int_arrays st (o_inputs gobj) of
                             None \<Rightarrow> Inl TypeError
                           | Some xs \<Rightarrow>
                               (case new_int_array xs st of
                                  (ia', st1) \<Rightarrow>
                                    Inr (ia', st1, memo_a(o_inputs gobj := Some ia'))))) of
                  Inl e \<Rightarrow> Inl e
                | Inr (ia', st1, memo_a') \<Rightarrow>
                    (case new_gene (gobj\<lparr>o_inputs := ia'\<rparr>) st1 of
                       (a', st2) \<Rightarrow>
                         (case deepcopy_genes rest (memo_g(a := Some a')) memo_a' st2 of
                            Inl e \<Rightarrow> Inl e
                          | Inr (l, st') \<Rightarrow> Inr (a' # l, st'))))))"

definition clone_h :: "addr \<Rightarrow> store \<Rightarrow> error + (addr \<times> store)" where
  "clone_h self st =
     (case new_individual st of
        (inst, st1) \<Rightarrow>
          (case individuals st1 self of
             None \<Rightarrow> Inl TypeError
           | Some io \<Rightarrow>
               (case i_active io of
                  None \<Rightarrow> Inl AttributeError
                | Some am \<Rightarrow>
                    (case bool_arrays st1 am of
                       None \<Rightarrow> Inl TypeError
                     | Some act \<Rightarrow>
                         (case new_bool_array act st1 of
                            (am', st2) \<Rightarrow>
                              (case gene_lists st2 (i_genes io) of
                                 None \<Rightarrow> Inl TypeError
                               | Some l \<Rightarrow>
                                   (case deepcopy_genes l (\<lambda>a. None) (\<lambda>a. None) st2 of
                                      Inl e \<Rightarrow> Inl e
                                    | Inr (l', st3) \<Rightarrow>
                                        (case new_list l' st3 of
                                           (la', st4) \<Rightarrow>
                                             Inr (inst,
                                               st4\<lparr>individuals := (individuals st4)(inst :=
                                                     Some (io\<lparr>i_genes := la', i_active := Some am'\<rparr>))\<rparr>)))))))))"

text \<open>Mutation on the store; the loops that only draw numbers are those of the value model.\<close>

definition mutate_function_gene_h ::
  "CgpConfig \<Rightarrow> addr \<Rightarrow> store \<Rightarrow> int \<Rightarrow> rng \<Rightarrow> (error + (bool \<times> store \<times> rng)) option" where
  "mutate_function_gene_h cfg self st gene_idx g =
     (case randint 0 (num_func_genes cfg) g of
        Inl e \<Rightarrow> Some (Inl e)
      | Inr (f, g1) \<Rightarrow>
          (case self_gene st self gene_idx of
             Inl e \<Rightarrow> Some (Inl e)
           | Inr (ga, gobj) \<Rightarrow>
               (case view_gene st ga of
                  None \<Rightarrow> Some (Inl TypeError)
                | Some gene \<Rightarrow>
                    (case mutate_function_gene_while cfg gene f g1 of
                       None \<Rightarrow> None
                     | Some (Inl e) \<Rightarrow> Some (Inl e)
                     | Some (Inr (f', g2)) \<Rightarrow>
                         (case py_index (function_inputs cfg) f' of
                            Inl e \<Rightarrow> Some (Inl e)
                          | Inr j \<Rightarrow>
                              Some (Inr (True,
                                st\<lparr>gene_objs := (gene_objs st)(ga :=
                                      Some (gobj\<lparr>o_fnc_idx := Some f',
                                                 o_num_inputs := function_inputs cfg ! j\<rparr>))\<rparr>,
                                g2)))))))"

fun mutate_connection_gene_for_h ::
  "int \<Rightarrow> int \<Rightarrow> addr \<Rightarrow> store \<Rightarrow> int \<Rightarrow> nat list \<Rightarrow> rng
   \<Rightarrow> (error + (bool \<times> store \<times> rng)) option" where
  "mutate_connection_gene_for_h min_con_id max_con_id self st gene_idx [] g =
     Some (Inr (False, st, g))"
| "mutate_connection_gene_for_h min_con_id max_con_id self st gene_idx (i # slots) g =
     (case randint 0 2 g of
        Inl e \<Rightarrow> Some (Inl e)
      | Inr (coin, g1) \<Rightarrow>
          if coin \<noteq> 0 \<and> max_con_id - min_con_id > 1
          then (case randint 0 (max_con_id - min_con_id) g1 of
                  Inl e \<Rightarrow> Some (Inl e)
                | Inr (r, g2) \<Rightarrow>
                    (case self_gene st self gene_idx of
                       Inl e \<Rightarrow> Some (Inl e)
                     | Inr (ga, gobj) \<Rightarrow>
                         (case int_arrays st (o_inputs gobj) of
                            None \<Rightarrow> Some (Inl TypeError)
                          | Some ins \<Rightarrow>
                              (case py_index ins (int i) of
                                 Inl e \<Rightarrow> Some (Inl e)
                               | Inr c \<Rightarrow>
                                   (case mutate_connection_gene_while min_con_id max_con_id
                                           (ins ! c) (min_con_id + r) g2 of
                                      None \<Rightarrow> None
                                    | Some (Inl e) \<Rightarrow> Some (Inl e)
                                    | Some (Inr (n, g3)) \<Rightarrow>
                                        Some (Inr (True,
                                          st\<lparr>int_arrays := (int_arrays st)(o_inputs gobj :=
                                                Some (ins[c := n]))\<rparr>,
                                          g3)))))))
          else mutate_connection_gene_for_h min_con_id max_con_id self st gene_idx slots g1)"

definition mutate_connection_gene_h ::
  "CgpConfig \<Rightarrow> addr \<Rightarrow> store \<Rightarrow> int \<Rightarrow> rng \<Rightarrow> (error + (bool \<times> store \<times> rng)) option" where
  "mutate_connection_gene_h cfg self st gene_idx g =
     (if rows cfg = 0 then Some (Inl ZeroDivisionError)
      else
        let col = min (gene_idx div rows cfg) (cols cfg);
            max_con_id = col * rows cfg + num_input cfg;
            min_con_id = (if col - level_back cfg \<ge> 0
                          then (col - level_back cfg) * rows cfg + num_input cfg else 0)
        in (case self_gene st self gene_idx of
              Inl e \<Rightarrow> Some (Inl e)
            | Inr (ga, gobj) \<Rightarrow>
                mutate_connection_gene_for_h min_con_id max_con_id self st gene_idx
                  [0..<nat (o_num_inputs gobj)] g))"

partial_function (option) mutate_while_h ::
  "CgpConfig \<Rightarrow> addr \<Rightarrow> int \<Rightarrow> int \<Rightarrow> store \<Rightarrow> rng \<Rightarrow> (error + (int \<times> store \<times> rng)) option" where
  "mutate_while_h cfg self num_genes cnt st g =
     (case mutation_budget cfg num_genes of
        Inl e \<Rightarrow> Some (Inl e)
      | Inr bound \<Rightarrow>
          if cnt \<le> bound
          then (case randint 0 num_genes g of
                  Inl e \<Rightarrow> Some (Inl e)
                | Inr (idx, g1) \<Rightarrow>
                    (case (if idx < num_nodes cfg then mutate_function_gene_h cfg self st idx g1
                           else Some (Inr (False, st, g1))) of
                       None \<Rightarrow> None
                     | Some (Inl e) \<Rightarrow> Some (Inl e)
                     | Some (Inr (b1, st1, g2)) \<Rightarrow>
                         (case mutate_connection_gene_h cfg self st1 idx g2 of
                            None \<Rightarrow> None
                          | Some (Inl e) \<Rightarrow> Some (Inl e)
                          | Some (Inr (b2, st2, g3)) \<Rightarrow>
                              mutate_while_h cfg self num_genes (cnt + of_bool b1 + of_bool b2) st2 g3)))
          else Some (Inr (cnt, st, g)))"

text \<open>
  \<^verbatim>\<open>mutate\<close> on the store. \<^verbatim>\<open>old_net\<close> is a copy of the mask, which nothing else
  refers to: it is kept as a value.
\<close>

partial_function (option) mutate_h ::
  "CgpConfig \<Rightarrow> bool \<Rightarrow> addr \<Rightarrow> store \<Rightarrow> rng \<Rightarrow> (error + (store \<times> rng)) option" where
  "mutate_h cfg force self st g =
     (case (if \<not> is_spawned_h st self then init_genes_h cfg self st g else Inr (st, g)) of
        Inl e \<Rightarrow> Some (Inl e)
      | Inr (st0, g0) \<Rightarrow>
          (case self_active st0 self of
             Inl e \<Rightarrow> Some (Inl e)
           | Inr (am, old_net) \<Rightarrow>
               (case self_genes st0 self of
                  Inl e \<Rightarrow> Some (Inl e)
                | Inr (la, l) \<Rightarrow>
                    (case mutate_while_h cfg self (int (length l)) 0 st0 g0 of
                       None \<Rightarrow> None
                     | Some (Inl e) \<Rightarrow> Some (Inl e)
                     | Some (Inr (cnt, st1, g1)) \<Rightarrow>
                         (case check_active_h cfg self st1 of
                            Inl e \<Rightarrow> Some (Inl e)
                          | Inr st2 \<Rightarrow>
                              (case self_active st2 self of
                                 Inl e \<Rightarrow> Some (Inl e)
                               | Inr (am2, act2) \<Rightarrow>
                                   if force \<and> act2 = old_net then mutate_h cfg force self st2 g1
                                   else Some (Inr (st2, g1))))))))"

text \<open>Any number of \<open>mutate\<close> calls on the object \<open>c\<close>, each one returning.\<close>

inductive mutations :: "CgpConfig \<Rightarrow> addr \<Rightarrow> store \<Rightarrow> store \<Rightarrow> bool" for cfg :: CgpConfig and c :: addr where
  mutations_none: "mutations cfg c st st"
| mutations_step:
    "mutations cfg c st st1 \<Longrightarrow> mutate_h cfg force c st1 g = Some (Inr (st2, g'))
     \<Longrightarrow> mutations cfg c st st2"

text \<open>
  Every address an individual object reaches lies below \<open>n\<close> (\<open>below\<close>), or at or above
  \<open>n\<close> (\<open>above\<close>, which also asks that the object, its list and its mask exist).
\<close>

definition below :: "nat \<Rightarrow> store \<Rightarrow> addr \<Rightarrow> bool" where
  "below n st p =
     (p < n
      \<and> (case individuals st p of
           None \<Rightarrow> True
         | Some io \<Rightarrow>
             i_genes io < n
             \<and> (case i_active io of None \<Rightarrow> True | Some am \<Rightarrow> am < n)
             \<and> (case gene_lists st (i_genes io) of
                  None \<Rightarrow> True
                | Some l \<Rightarrow>
                    list_all (\<lambda>a. a < n
                        \<and> (case gene_objs st a of None \<Rightarrow> True | Some gobj \<Rightarrow> o_inputs gobj < n)) l)))"

definition above :: "nat \<Rightarrow> store \<Rightarrow> addr \<Rightarrow> bool" where
  "above n st c =
     (n \<le> c
      \<and> (case individuals st c of
           None \<Rightarrow> False
         | Some io \<Rightarrow>
             n \<le> i_genes io
             \<and> (case i_active io of None \<Rightarrow> False | Some am \<Rightarrow> n \<le> am)
             \<and> (case gene_lists st (i_genes io) of
                  None \<Rightarrow> False
                | Some l \<Rightarrow>
                    list_all (\<lambda>a. n \<le> a
                        \<and> (case gene_objs st a of None \<Rightarrow> True | Some gobj \<Rightarrow> n \<le> o_inputs gobj)) l)))"

text \<open>Two stores hold the same objects at all addresses below \<open>n\<close>.\<close>

definition same_below :: "nat \<Rightarrow> store \<Rightarrow> store \<Rightarrow> bool" where
  "same_below n st st' =
     (\<forall>a < n. individuals st' a = individuals st a \<and> gene_lists st' a = gene_lists st a
        \<and> gene_objs st' a = gene_objs st a \<and> int_arrays st' a = int_arrays st a
        \<and> bool_arrays st' a = bool_arrays st a)"

declare mutate_function_gene_while.simps [code]
declare mutate_while_h.simps [code]
declare mutate_h.simps [code]
declare peel_while.simps [code]
declare run_while.simps [code]
declare mutate_connection_gene_while.simps [code]
declare mutate_while.simps [code]
declare mutate.simps [code]

subsection \<open>A small configuration used in the worked examples\<close>

text \<open>
  One row, two columns, level-back two, two functions of arity one and two: genes 0
  and 1 are function genes and gene 2 is the output gene. The mutation rate is the
  default, the float \<^verbatim>\<open>0.1\<close>. \<open>draws xs\<close> is the random source whose raw values are
  \<open>xs\<close>, followed by zeros.
\<close>

definition float_0_1 :: py_float where
  "float_0_1 = Finite 3602879701896397 (- 55)"

definition draws :: "nat list \<Rightarrow> rng" where
  "draws xs = (\<lambda>i. if i < length xs then xs ! i else 0)"

definition example_cfg :: CgpConfig where
  "example_cfg =
     \<lparr> rows = 1, cols = 2, level_back = 2, num_input = 1, num_output = 1,
       num_nodes = 2, cfg_functions = [''conv'', ''add''], function_inputs = [1, 2],
       num_func_genes = 2, max_inputs = 2, mutation_rate = float_0_1 \<rparr>"

definition example_ind :: Individual where
  "example_ind =
     \<lparr> genes =
         [\<lparr> is_output = False, fnc_idx = Some 0, inputs = [0, 0], num_inputs = 1 \<rparr>,
          \<lparr> is_output = False, fnc_idx = Some 0, inputs = [0, 0], num_inputs = 1 \<rparr>,
          \<lparr> is_output = True, fnc_idx = None, inputs = [1, 1], num_inputs = 1 \<rparr>],
       active = Some [True, False, True], score = None, total_params = None,
       accuracy = None, model = None \<rparr>"

text \<open>
  An evaluator that scores the spawned parent 0.5 and the children 0.4, 0.6 and 0.55
  by their index, and the comparator under which the higher score wins.
\<close>

definition example_evaluator :: evaluator where
  "example_evaluator child index epoch =
     ((if index = 0 then 5 / 10 else if index = 1 then 4 / 10
       else if index = 2 then 6 / 10 else 55 / 100), 100, 0, 1 / 2)"

definition higher_score_wins :: comparator where
  "higher_score_wins current candidate =
     (case current of
        None \<Rightarrow> False
      | Some x \<Rightarrow> (case candidate of None \<Rightarrow> False | Some y \<Rightarrow> x < y))"

text \<open>
  Four evaluated individuals as \<open>(score, total_params)\<close>: 0 and 1 dominate nobody of
  each other, 0 dominates 2 and 3, 2 dominates 3, and 1 dominates neither 2 nor 3.
\<close>

definition example_objectives :: objectives where
  "example_objectives r =
     (if r = 0 then (9 / 10, 10) else if r = 1 then (5 / 10, 5)
      else if r = 2 then (8 / 10, 20) else (7 / 10, 30))"

text \<open>
  The same grid with a function set of one member, and the individual that \<open>spawn\<close>
  gives on it.
\<close>

definition single_function_cfg :: CgpConfig where
  "single_function_cfg =
     \<lparr> rows = 1, cols = 2, level_back = 2, num_input = 1, num_output = 1,
       num_nodes = 2, cfg_functions = [''conv''], function_inputs = [1],
       num_func_genes = 1, max_inputs = 1, mutation_rate = float_0_1 \<rparr>"

definition single_function_ind :: Individual where
  "single_function_ind =
     \<lparr> genes =
         [\<lparr> is_output = False, fnc_idx = Some 0, inputs = [0], num_inputs = 1 \<rparr>,
          \<lparr> is_output = False, fnc_idx = Some 0, inputs = [0], num_inputs = 1 \<rparr>,
          \<lparr> is_output = True, fnc_idx = None, inputs = [1], num_inputs = 1 \<rparr>],
       active = Some [True, False, True], score = None, total_params = None,
       accuracy = None, model = None \<rparr>"

text \<open>What the forced mutation of the worked example makes of \<open>example_ind\<close>.\<close>

definition example_mutated :: Individual where
  "example_mutated =
     \<lparr> genes =
         [\<lparr> is_output = False, fnc_idx = Some 0, inputs = [0, 0], num_inputs = 1 \<rparr>,
          \<lparr> is_output = False, fnc_idx = Some 1, inputs = [0, 0], num_inputs = 2 \<rparr>,
          \<lparr> is_output = True, fnc_idx = None, inputs = [2, 1], num_inputs = 1 \<rparr>],
       active = Some [False, True, True], score = None, total_params = None,
       accuracy = None, model = None \<rparr>"

text \<open>
  The store after \<open>spawn\<close> has built the parent of the worked example in the empty store;
  the parent is the object at address 1.
\<close>

definition example_store :: store where
  "example_store =
     (case spawn_h example_cfg empty_store (draws []) of
        Inl e \<Rightarrow> empty_store
      | Inr (p, st, g) \<Rightarrow> st)"

section \<open>Properties\<close>

subsection \<open>The walk never exhausts its depth\<close>

lemma unmarked_update:
  "k < length act \<Longrightarrow> \<not> act ! k \<Longrightarrow>
   Suc (length (filter Not (act[k := True]))) = length (filter Not act)"
proof (induction act arbitrary: k)
  case Nil
  then show ?case by simp
next
  case (Cons b act)
  show ?case
  proof (cases k)
    case 0
    with Cons.prems show ?thesis by simp
  next
    case (Suc j)
    with Cons.prems Cons.IH[of j] show ?thesis by simp
  qed
qed

lemma py_index_error: "py_index xs i = Inl e \<Longrightarrow> e = IndexError"
  by (auto simp: py_index_def split: if_splits)

lemma py_index_bound: "py_index xs i = Inr k \<Longrightarrow> k < length xs"
  by (auto simp: py_index_def split: if_splits)

lemma walk_to_out_depth:
  "length (filter Not act) < d \<Longrightarrow>
   walk_to_out d cfg gs act node \<noteq> Inl RecursionError
   \<and> (\<forall>a. walk_to_out d cfg gs act node = Inr a \<longrightarrow>
         length a = length act \<and> length (filter Not a) \<le> length (filter Not act))"
proof (induction d arbitrary: act node)
  case 0
  then show ?case by simp
next
  case (Suc d)
  show ?case
  proof (cases "py_index act node")
    case (Inl e)
    with py_index_error[OF Inl] show ?thesis by simp
  next
    case (Inr k)
    note k = this
    show ?thesis
    proof (cases "act ! k")
      case True
      with k show ?thesis by simp
    next
      case False
      note unmarked = this
      show ?thesis
      proof (cases "py_index gs node")
        case (Inl e)
        with k unmarked py_index_error[OF Inl] show ?thesis by simp
      next
        case (Inr j)
        let ?step = "\<lambda>i r. case r of Inl e \<Rightarrow> Inl e
                        | Inr a \<Rightarrow>
                            (case py_index (inputs (gs ! j)) (int i) of
                               Inl e \<Rightarrow> Inl e
                             | Inr c \<Rightarrow>
                                 if inputs (gs ! j) ! c \<ge> num_input cfg
                                 then walk_to_out d cfg gs a (inputs (gs ! j) ! c - num_input cfg)
                                 else Inr a)"
        let ?P = "\<lambda>r. r \<noteq> Inl RecursionError \<and>
                   (\<forall>a. r = Inr a \<longrightarrow> length a = length act
                       \<and> Suc (length (filter Not a)) \<le> length (filter Not act))"
        have step: "?P (fold ?step slots r)" if "?P r" for slots r
          using that
        proof (induction slots arbitrary: r)
          case Nil
          then show ?case by simp
        next
          case (Cons i slots)
          have "?P (?step i r)"
          proof (cases r)
            case (Inl e)
            with Cons.prems show ?thesis by simp
          next
            case (Inr a)
            with Cons.prems have a: "length a = length act"
              "Suc (length (filter Not a)) \<le> length (filter Not act)" by auto
            with Suc.prems have "length (filter Not a) < d" by simp
            note lt = this
            show ?thesis
            proof (cases "py_index (inputs (gs ! j)) (int i)")
              case (Inl e)
              with Inr py_index_error[OF Inl] show ?thesis by simp
            next
              case c: (Inr c)
              show ?thesis
              proof (cases "inputs (gs ! j) ! c \<ge> num_input cfg")
                case True
                from Suc.IH[OF lt, of "inputs (gs ! j) ! c - num_input cfg"] a
                have "?P (walk_to_out d cfg gs a (inputs (gs ! j) ! c - num_input cfg))"
                  by auto
                with Inr c True show ?thesis by simp
              next
                case False
                with Inr c a show ?thesis by simp
              qed
            qed
          qed
          from Cons.IH[OF this] show ?case by simp
        qed
        have "?P (Inr (act[k := True]))"
          using unmarked_update[OF py_index_bound[OF k] unmarked] by simp
        from step[OF this, of "[0..<nat (num_inputs (gs ! j))]"] k unmarked Inr
        show ?thesis by auto
      qed
    qed
  qed
qed

lemma check_active_no_recursion_error: "check_active cfg ind \<noteq> Inl RecursionError"
proof (cases "active ind")
  case None
  then show ?thesis by (simp add: check_active_def)
next
  case (Some act)
  let ?step = "\<lambda>node r. case r of Inl e \<Rightarrow> Inl e
                   | Inr a \<Rightarrow> walk_to_out (Suc (length a)) cfg (genes ind) a (num_nodes cfg + int node)"
  have "fold ?step nodes r \<noteq> Inl RecursionError" if "r \<noteq> Inl RecursionError" for nodes r
    using that
  proof (induction nodes arbitrary: r)
    case Nil
    then show ?case by simp
  next
    case (Cons node nodes)
    have "?step node r \<noteq> Inl RecursionError"
    proof (cases r)
      case (Inl e)
      with Cons.prems show ?thesis by simp
    next
      case (Inr a)
      have "length (filter Not a) < Suc (length a)"
        by (simp add: less_Suc_eq_le)
      from walk_to_out_depth[OF this] Inr show ?thesis by (simp del: walk_to_out.simps)
    qed
    from Cons.IH[OF this] show ?case by (simp del: walk_to_out.simps)
  qed
  from this[of "Inr (replicate (length act) False)" "[0..<nat (num_output cfg)]"] Some
  show ?thesis by (auto simp del: walk_to_out.simps simp: check_active_def split: sum.splits)
qed

subsection \<open>Forced mutation\<close>

lemma result_individual:
  assumes "map_option (map_sum id fst) x = Some (Inr v)"
  shows "\<exists>g'. x = Some (Inr (v, g'))"
proof (cases x)
  case None
  with assms show ?thesis by simp
next
  case (Some r)
  with assms show ?thesis by (cases r) auto
qed

lemma check_active_spawned: "check_active cfg ind = Inr ind2 \<Longrightarrow> is_spawned ind2"
  by (auto simp: check_active_def is_spawned_def split: option.splits sum.splits)

lemma mutate_force_aux:
  assumes "mutate cfg force ind g = Some y"
  shows "force \<longrightarrow> is_spawned ind \<longrightarrow>
         (\<forall>ind' g'. y = Inr (ind', g') \<longrightarrow> active ind' \<noteq> active ind)"
proof (rule mutate.raw_induct[OF _ assms, where P = "\<lambda>cfg force ind g y.
    force \<longrightarrow> is_spawned ind \<longrightarrow> (\<forall>ind' g'. y = Inr (ind', g') \<longrightarrow> active ind' \<noteq> active ind)"],
    goal_cases)
  case (1 mut cfg force ind g y)
  show ?case
  proof (intro impI allI)
    fix ind' g'
    assume f: force and sp: "is_spawned ind" and y: "y = Inr (ind', g')"
    from 1(2) sp y obtain cnt ind1 g1 ind2 where
      w: "mutate_while cfg (int (length (genes ind))) 0 ind g = Some (Inr (cnt, ind1, g1))"
      and c: "check_active cfg ind1 = Inr ind2"
      and r: "(if force \<and> active ind2 = active ind then mut cfg force ind2 g1
               else Some (Inr (ind2, g1))) = Some y"
      by (auto split: option.splits sum.splits prod.splits)
    show "active ind' \<noteq> active ind"
    proof (cases "active ind2 = active ind")
      case True
      with r f have "mut cfg force ind2 g1 = Some y" by simp
      from 1(1)[OF this] f check_active_spawned[OF c] y True show ?thesis by simp
    next
      case False
      with r y show ?thesis by simp
    qed
  qed
qed

text \<open>
  Claim C3. When \<open>mutate\<close> is called with \<open>force\<close> on a spawned individual and
  returns, the active mask differs from the mask held before the call; and when the
  mutation loop followed by \<open>check_active\<close> leaves the mask as it was, the call is the
  same as a fresh forced \<open>mutate\<close> on the result, with the random source as the loop
  left it.
\<close>

theorem mutate_force_changes_mask:
  assumes "is_spawned ind"
  shows "(\<forall>ind' g'. mutate cfg True ind g = Some (Inr (ind', g')) \<longrightarrow> active ind' \<noteq> active ind)
       \<and> (\<forall>cnt ind1 g1 ind2.
            mutate_while cfg (int (length (genes ind))) 0 ind g = Some (Inr (cnt, ind1, g1)) \<longrightarrow>
            check_active cfg ind1 = Inr ind2 \<longrightarrow> active ind2 = active ind \<longrightarrow>
            mutate cfg True ind g = mutate cfg True ind2 g1)"
proof (intro conjI allI impI)
  fix ind' g'
  assume "mutate cfg True ind g = Some (Inr (ind', g'))"
  from mutate_force_aux[OF this] assms show "active ind' \<noteq> active ind" by simp
next
  fix cnt ind1 g1 ind2
  assume "mutate_while cfg (int (length (genes ind))) 0 ind g = Some (Inr (cnt, ind1, g1))"
    and "check_active cfg ind1 = Inr ind2" and "active ind2 = active ind"
  with assms show "mutate cfg True ind g = mutate cfg True ind2 g1"
    by (subst mutate.simps) simp
qed

text \<open>
  The witness: the first pass rewrites the function of the inactive gene 1 and leaves
  the mask alone, so the call retries; the second pass reconnects the output gene.
\<close>

lemma example_mutate_retry:
  "map_option (map_sum id fst) (mutate example_cfg True example_ind (draws [1, 1, 0, 0, 2, 1, 1]))
   = Some (Inr example_mutated)"
  by code_simp

theorem mutate_force_changes_mask_witness:
  "is_spawned example_ind
   \<and> (\<exists>ind'. map_option (map_sum id fst)
         (mutate example_cfg True example_ind (draws [1, 1, 0, 0, 2, 1, 1])) = Some (Inr ind')
       \<and> active ind' = Some [False, True, True] \<and> active ind' \<noteq> active example_ind)"
proof -
  have sp: "is_spawned example_ind" by (simp add: is_spawned_def example_ind_def)
  from result_individual[OF example_mutate_retry] obtain ind' g' where
    m: "mutate example_cfg True example_ind (draws [1, 1, 0, 0, 2, 1, 1]) = Some (Inr (ind', g'))"
    and a: "active ind' = Some [False, True, True]"
    by (auto simp: example_mutated_def)
  from mutate_force_changes_mask[OF sp, of example_cfg "draws [1, 1, 0, 0, 2, 1, 1]"] m
  have "active ind' \<noteq> active example_ind" by blast
  with sp m a show ?thesis by auto
qed

subsection \<open>The selection step and the generation counter\<close>

lemma select_loop_append:
  "select_loop cmp st (xs @ ys) =
     (case select_loop cmp st xs of Inl e \<Rightarrow> Inl e | Inr st1 \<Rightarrow> select_loop cmp st1 ys)"
proof (induction xs arbitrary: st)
  case Nil
  show ?case by simp
next
  case (Cons x xs)
  obtain idx child where x: "x = (idx, child)" by (cases x)
  show ?case
  proof (cases "score child")
    case None
    with x show ?thesis by simp
  next
    case (Some s)
    with x Cons.IH show ?thesis by simp
  qed
qed

lemma select_loop_epoch:
  "select_loop cmp st cs = Inr st' \<Longrightarrow> current_epoch st' = current_epoch st + int (length cs)"
proof (induction cs arbitrary: st)
  case Nil
  then show ?case by simp
next
  case (Cons c cs)
  obtain idx child where c: "c = (idx, child)" by (cases c)
  from Cons.prems c obtain s where s: "score child = Some s"
    by (cases "score child") auto
  let ?st1 = "(if s > 0 \<and> cmp (score (parent st)) (score child)
              then st\<lparr>parent := child,
                      improved_calls := improved_calls st @ [(int idx + 1, score child)]\<rparr>
              else st)\<lparr>current_epoch := current_epoch st + 1\<rparr>"
  from Cons.prems c s have "select_loop cmp ?st1 cs = Inr st'" by simp
  from Cons.IH[OF this] show ?case by simp
qed

text \<open>
  Claim C5. The selection loop scans the children in index order, the state left by
  the children scanned so far (with the parent possibly replaced) being the state the
  next child is compared in; a child with a score is compared only when its score is
  positive, and replaces the parent when the comparator says so. With a parent of
  score 0.5 and children of scores 0.4, 0.6 and 0.55 under the comparator
  \<open>higher_score_wins\<close>, the parent after the loop is the second child.
\<close>

theorem select_loop_replaces_in_place:
  "select_loop cmp st (xs @ ys) =
     (case select_loop cmp st xs of Inl e \<Rightarrow> Inl e | Inr st1 \<Rightarrow> select_loop cmp st1 ys)
   \<and> (\<forall>s. score child = Some s \<longrightarrow>
         map_sum id parent (select_loop cmp st [(idx, child)]) =
           Inr (if 0 < s \<and> cmp (score (parent st)) (Some s) then child else parent st))
   \<and> (score (parent st) = Some (5 / 10) \<longrightarrow> score c1 = Some (4 / 10) \<longrightarrow>
       score c2 = Some (6 / 10) \<longrightarrow> score c3 = Some (55 / 100) \<longrightarrow>
         map_sum id parent (select_loop higher_score_wins st [(0, c1), (1, c2), (2, c3)]) = Inr c2)"
proof (intro conjI allI impI)
  show "select_loop cmp st (xs @ ys) =
     (case select_loop cmp st xs of Inl e \<Rightarrow> Inl e | Inr st1 \<Rightarrow> select_loop cmp st1 ys)"
    by (rule select_loop_append)
next
  fix s
  assume "score child = Some s"
  then show "map_sum id parent (select_loop cmp st [(idx, child)]) =
           Inr (if 0 < s \<and> cmp (score (parent st)) (Some s) then child else parent st)"
    by simp
next
  assume "score (parent st) = Some (5 / 10)" "score c1 = Some (4 / 10)"
    "score c2 = Some (6 / 10)" "score c3 = Some (55 / 100)"
  then show "map_sum id parent (select_loop higher_score_wins st [(0, c1), (1, c2), (2, c3)]) = Inr c2"
    by (simp add: higher_score_wins_def)
qed

theorem select_loop_replaces_in_place_witness:
  "score (example_ind\<lparr>score := Some (6 / 10)\<rparr>) = Some (6 / 10)
   \<and> map_sum id parent
        (select_loop higher_score_wins
           \<lparr> parent = example_ind\<lparr>score := Some (5 / 10)\<rparr>, current_epoch = 0,
             evaluator_calls = [], improved_calls = [] \<rparr>
           [(0, example_ind\<lparr>score := Some (4 / 10)\<rparr>),
            (1, example_ind\<lparr>score := Some (6 / 10)\<rparr>),
            (2, example_ind\<lparr>score := Some (55 / 100)\<rparr>)])
      = Inr (example_ind\<lparr>score := Some (6 / 10)\<rparr>)"
  using select_loop_replaces_in_place
    [of higher_score_wins
        "\<lparr> parent = example_ind\<lparr>score := Some (5 / 10)\<rparr>, current_epoch = 0,
           evaluator_calls = [], improved_calls = [] \<rparr>"
        "[]" "[]" "example_ind\<lparr>score := Some (6 / 10)\<rparr>" 1
        "example_ind\<lparr>score := Some (4 / 10)\<rparr>"
        "example_ind\<lparr>score := Some (6 / 10)\<rparr>"
        "example_ind\<lparr>score := Some (55 / 100)\<rparr>"]
  by simp

text \<open>
  The same scenario through \<open>run\<close>: three children and a budget of one generation.
  The run ends with the second child as parent; the counter stands at 3.
\<close>

lemma example_run_select:
  "map_option (map_sum id (\<lambda>(st, g). (score (parent st), improved_calls st, current_epoch st)))
     (run example_cfg 3 None example_evaluator higher_score_wins 1 True
        (draws [0, 0, 0, 0, 0, 0, 0, 0, 2, 1, 1, 2, 1, 1, 2, 1, 1]))
   = Some (Inr (Some (6 / 10), [(2, Some (6 / 10))], 3))"
  by code_simp

text \<open>
  Claim C2 fails on the code: \<^verbatim>\<open>current_epoch += 1\<close> is in the body of the loop over
  the children, so the counter advances by the number of children in every
  generation. With two children and \<^verbatim>\<open>max_epochs = 2\<close> the run evaluates the parent
  and one generation of two children, and returns with the counter at 2.
\<close>

theorem run_counts_children:
  "map_option (map_sum id (\<lambda>(st, g). (current_epoch st, evaluator_calls st)))
     (run example_cfg 2 None example_evaluator higher_score_wins 2 True
        (draws [0, 0, 0, 0, 0, 0, 0, 0, 2, 1, 1, 2, 1, 1]))
   = Some (Inr (2, [(0, 0), (1, 1), (2, 1)]))"
  by code_simp

subsection \<open>Loading a parent\<close>

text \<open>
  Claim C8 holds for an absent file and fails for a file whose object is not an
  \<^verbatim>\<open>Individual\<close> and has no \<^verbatim>\<open>score\<close> attribute: the \<^verbatim>\<open>print\<close> raises
  \<^verbatim>\<open>AttributeError\<close> before the type is tested.
\<close>

theorem load_parent_raises:
  "load_parent (fs(path := None)) (Some path) = Inr (None, [])
   \<and> load_parent (fs(path := Some (Pickle (OtherObject NoScore)))) (Some path) = Inl LoadAttributeError
   \<and> load_parent (fs(path := Some (Pickle (OtherObject (ScoreNumber x))))) (Some path)
       = Inr (None, [''parent is not a valid Individual instance''])"
  by (simp add: load_parent_def)

subsection \<open>Pareto ranking\<close>

text \<open>
  Claim C1 fails on the code: the peel step decrements the count of every individual,
  not only of those the front member dominates. Individual 3 is dominated by 0 and by
  2; peeling the two members of front 0 brings its count to zero, and it joins front 1
  together with 2, which dominates it.
\<close>

theorem fast_non_dominated_sort_peels_all:
  "fast_non_dominated_sort example_objectives [0, 1, 2, 3] = Some [[0, 1], [2, 3]]
   \<and> dominates (example_objectives 2) (example_objectives 3)
   \<and> \<not> dominates (example_objectives 1) (example_objectives 3)"
  by code_simp

subsection \<open>The bound of the mutation loop\<close>

text \<open>
  The product is rounded before it is truncated: \<^verbatim>\<open>int(50 * 0.58)\<close> is 28, where the
  exact product of 50 and 0.58 is 29, and \<^verbatim>\<open>int(10 * 0.3)\<close> is 3, where the float
  \<^verbatim>\<open>0.3\<close> is below three tenths. A finite rate that is not negative gives a bound
  that is not negative.
\<close>

lemma mutation_budget_examples:
  "mutation_budget (example_cfg\<lparr>mutation_rate := Finite 5224175567749775 (- 53)\<rparr>) 50 = Inr 28
   \<and> mutation_budget (example_cfg\<lparr>mutation_rate := Finite 5404319552844595 (- 54)\<rparr>) 10 = Inr 3
   \<and> mutation_budget example_cfg 3 = Inr 0"
  by code_simp

lemma round_half_even_nonneg: "0 \<le> a \<Longrightarrow> 0 \<le> round_half_even a k"
  by (simp add: round_half_even_def Let_def pos_imp_zdiv_nonneg_iff)

lemma float_round_not_nan: "float_round m e \<noteq> NaN"
  by (simp add: float_round_def Let_def)

lemma float_round_nonneg: "0 \<le> m \<Longrightarrow> float_round m e = Finite q e' \<Longrightarrow> 0 \<le> q"
  by (auto simp: float_round_def Let_def round_half_even_nonneg split: if_splits)

lemma mutation_budget_nonneg:
  assumes "mutation_rate cfg = Finite m e" and "0 \<le> m" and "0 \<le> n"
    and "mutation_budget cfg n = Inr B"
  shows "0 \<le> B"
proof -
  from assms(4) obtain x where x: "float_of_int n = Inr x"
    and B: "py_int (float_mul x (mutation_rate cfg)) = Inr B"
    by (auto simp: mutation_budget_def int_mul_float_def split: sum.splits)
  from x float_round_not_nan[of n 0] obtain q d where
    xq: "x = Finite q d" and r: "float_round n 0 = Finite q d"
    by (cases "float_round n 0") (auto simp: float_of_int_def)
  from float_round_nonneg[OF assms(3) r] have q: "0 \<le> q" .
  from B xq assms(1) obtain p c where p: "float_round (q * m) (d + e) = Finite p c"
    and Bp: "py_int (Finite p c) = Inr B"
    by (cases "float_round (q * m) (d + e)") (auto simp: py_int_def)
  from q assms(2) have "0 \<le> q * m" by simp
  from float_round_nonneg[OF this p] have "0 \<le> p" .
  with Bp show ?thesis
    by (auto simp: py_int_def pos_imp_zdiv_nonneg_iff sgn_if split: if_splits)
qed

subsection \<open>A function set of one member\<close>

lemma example_configs_constructed:
  "CgpConfig_init 1 2 2 [''conv'', ''add''] [1, 2] float_0_1 = Inr example_cfg
   \<and> CgpConfig_init 1 2 2 [''conv''] [1] float_0_1 = Inr single_function_cfg"
  by (simp add: CgpConfig_init_def example_cfg_def single_function_cfg_def)

lemma example_individuals_spawned:
  "map_sum id fst (spawn example_cfg (draws [])) = Inr example_ind
   \<and> map_sum id fst (spawn single_function_cfg (draws [])) = Inr single_function_ind"
  by code_simp

lemma randint_one: "randint 0 1 g = Inr (0, \<lambda>i. g (Suc i))"
  by (simp add: randint_def)

lemma mutate_function_gene_while_single_aux:
  assumes "mutate_function_gene_while cfg gene f g = Some y"
  shows "num_func_genes cfg = 1 \<longrightarrow> fnc_idx gene = Some 0 \<longrightarrow> f = 0 \<longrightarrow> False"
proof (rule mutate_function_gene_while.raw_induct[OF _ assms, where P = "\<lambda>cfg gene f g y.
    num_func_genes cfg = 1 \<longrightarrow> fnc_idx gene = Some 0 \<longrightarrow> f = 0 \<longrightarrow> False"], goal_cases)
  case (1 loop cfg gene f g y)
  show ?case
  proof (intro impI)
    assume a: "num_func_genes cfg = 1" "fnc_idx gene = Some 0" "f = 0"
    with 1(2) have "loop cfg gene 0 (\<lambda>i. g (Suc i)) = Some y"
      by (simp add: get_fnc_idx_def randint_one)
    from 1(1)[OF this] a show False by simp
  qed
qed

lemma mutate_function_gene_while_single:
  "num_func_genes cfg = 1 \<Longrightarrow> fnc_idx gene = Some 0 \<Longrightarrow> mutate_function_gene_while cfg gene 0 g = None"
  using mutate_function_gene_while_single_aux[of cfg gene 0 g]
  by (cases "mutate_function_gene_while cfg gene 0 g") auto

lemma mutate_function_gene_single:
  assumes "num_func_genes cfg = 1" "py_index (genes ind) idx = Inr k" "fnc_idx (genes ind ! k) = Some 0"
  shows "mutate_function_gene cfg ind idx g = None"
  using assms by (simp add: mutate_function_gene_def randint_one mutate_function_gene_while_single)

text \<open>
  Claim C7 fails on the code. With one function, \<^verbatim>\<open>randint(1)\<close> always gives 0, the
  function every function gene already has, so the \<^verbatim>\<open>while\<close> loop of
  \<^verbatim>\<open>__mutate_function_gene\<close> never ends: when the loop of \<open>mutate\<close> is entered (its
  bound is computed and is not negative, as it is for a finite rate that is not
  negative, by \<open>mutation_budget_nonneg\<close>) and the first gene index drawn is a function
  gene, \<open>mutate\<close> does not return.
\<close>

theorem mutate_single_function_diverges:
  assumes "num_func_genes cfg = 1" and "is_spawned ind"
    and "mutation_budget cfg (int (length (genes ind))) = Inr bound" and "0 \<le> bound"
    and "genes ind \<noteq> []" and "int (g 0 mod length (genes ind)) < num_nodes cfg"
    and "fnc_idx (genes ind ! (g 0 mod length (genes ind))) = Some 0"
  shows "mutate cfg force ind g = None"
proof -
  let ?n = "int (length (genes ind))"
  let ?idx = "int (g 0 mod length (genes ind))"
  have r: "randint 0 ?n g = Inr (?idx, \<lambda>i. g (Suc i))"
    using assms(5) by (simp add: randint_def)
  have p: "py_index (genes ind) ?idx = Inr (g 0 mod length (genes ind))"
    using assms(5) by (simp add: py_index_def)
  have "mutate_while cfg ?n 0 ind g = None"
    using r assms(3) assms(4) assms(6) mutate_function_gene_single[OF assms(1) p assms(7)]
    by (subst mutate_while.simps) simp
  with assms(2) show ?thesis
    by (subst mutate.simps) simp
qed

lemma single_function_budget:
  "mutation_budget single_function_cfg (int (length (genes single_function_ind))) = Inr 0"
  by code_simp

theorem mutate_single_function_diverges_witness:
  "num_func_genes single_function_cfg = 1 \<and> is_spawned single_function_ind
   \<and> mutation_budget single_function_cfg (int (length (genes single_function_ind))) = Inr 0
   \<and> mutate single_function_cfg True single_function_ind (draws [0]) = None"
  using mutate_single_function_diverges[of single_function_cfg single_function_ind 0 "draws [0]" True]
    single_function_budget
  by (simp add: single_function_cfg_def single_function_ind_def is_spawned_def draws_def)

subsection \<open>Initialisation and mutation keep the connections legal and the layout\<close>

lemma randint_range: "randint low high g = Inr (r, g') \<Longrightarrow> low \<le> r \<and> r < high"
proof -
  assume a: "randint low high g = Inr (r, g')"
  then have lt: "low < high" by (auto simp: randint_def split: if_splits)
  then have "int (g 0 mod nat (high - low)) < high - low"
    using mod_less_divisor[of "nat (high - low)" "g 0"] by linarith
  with a lt show ?thesis by (auto simp: randint_def)
qed

lemma randint_error: "randint low high g = Inl e \<Longrightarrow> e = ValueError"
  by (auto simp: randint_def split: if_splits)

lemma in_legal_range_code:
  "in_legal_range cfg position c =
     (let col = min (position div rows cfg) (cols cfg);
          max_con_id = col * rows cfg + num_input cfg;
          min_con_id = (if col - level_back cfg \<ge> 0
                        then (col - level_back cfg) * rows cfg + num_input cfg else 0)
      in min_con_id \<le> c \<and> c < max_con_id)"
  by (auto simp: in_legal_range_def legal_range_def Let_def)

lemma init_inputs_range:
  "init_inputs lo hi slots ins g = Inr (ins', g') \<Longrightarrow> \<forall>i \<in> set slots. i < length ins \<Longrightarrow>
   length ins' = length ins
   \<and> (\<forall>j < length ins. (j \<in> set slots \<or> (lo \<le> ins ! j \<and> ins ! j < hi))
         \<longrightarrow> (lo \<le> ins' ! j \<and> ins' ! j < hi))"
proof (induction slots arbitrary: ins g)
  case Nil
  then show ?case by simp
next
  case (Cons i slots)
  from Cons.prems(1) obtain r g1 where r: "randint 0 (hi - lo) g = Inr (r, g1)"
    and rest: "init_inputs lo hi slots (ins[i := lo + r]) g1 = Inr (ins', g')"
    by (auto split: sum.splits prod.splits)
  from randint_range[OF r] have rr: "lo \<le> lo + r" "lo + r < hi" by auto
  from Cons.prems(2) have "\<forall>s \<in> set slots. s < length (ins[i := lo + r])" by simp
  from Cons.IH[OF rest this]
  have len: "length ins' = length ins"
    and ih: "\<And>j. j < length ins \<Longrightarrow>
         (j \<in> set slots \<or> (lo \<le> ins[i := lo + r] ! j \<and> ins[i := lo + r] ! j < hi))
         \<Longrightarrow> (lo \<le> ins' ! j \<and> ins' ! j < hi)"
    by auto
  show ?case
  proof (intro conjI allI impI)
    show "length ins' = length ins" by (rule len)
  next
    fix j assume j: "j < length ins"
      and d: "j \<in> set (i # slots) \<or> (lo \<le> ins ! j \<and> ins ! j < hi)"
    have "j \<in> set slots \<or> (lo \<le> ins[i := lo + r] ! j \<and> ins[i := lo + r] ! j < hi)"
      using d j rr by (cases "j = i") auto
    from ih[OF j this] show "lo \<le> ins' ! j" and "ins' ! j < hi" by auto
  qed
qed

lemma init_inputs_all:
  assumes "init_inputs lo hi [0..<length ins] ins g = Inr (ins', g')"
  shows "\<forall>c \<in> set ins'. lo \<le> c \<and> c < hi"
proof -
  from init_inputs_range[OF assms] have len: "length ins' = length ins"
    and r: "\<forall>j < length ins. lo \<le> ins' ! j \<and> ins' ! j < hi" by auto
  show ?thesis
  proof
    fix c assume "c \<in> set ins'"
    then obtain j where "j < length ins'" "ins' ! j = c" by (auto simp: in_set_conv_nth)
    with len r show "lo \<le> c \<and> c < hi" by auto
  qed
qed

lemma init_gene_ok:
  assumes "init_gene cfg node g = Inr (gene, g')"
  shows "(if node < num_nodes cfg then is_function_gene gene else is_output_gene gene)
         \<and> (\<forall>c \<in> set (inputs gene). in_legal_range cfg node c)"
proof -
  let ?col = "min (node div rows cfg) (cols cfg)"
  let ?hi = "?col * rows cfg + num_input cfg"
  let ?lo = "if ?col - level_back cfg \<ge> 0 then (?col - level_back cfg) * rows cfg + num_input cfg else 0"
  let ?pre = "if node < num_nodes cfg
            then (case randint 0 (num_func_genes cfg) g of
                    Inl e \<Rightarrow> Inl e
                  | Inr (f, g1) \<Rightarrow>
                      (case py_index (function_inputs cfg) f of
                         Inl e \<Rightarrow> Inl e
                       | Inr k \<Rightarrow>
                           (case FunctionGen f (max_inputs cfg) (function_inputs cfg ! k) of
                              Inl e \<Rightarrow> Inl e
                            | Inr gene \<Rightarrow> Inr (gene, g1))))
            else (case OutputGen (max_inputs cfg) of
                    Inl e \<Rightarrow> Inl e
                  | Inr gene \<Rightarrow> Inr (gene, g))"
  from assms obtain g0 g1 where pre: "?pre = Inr (g0, g1)"
    by (cases ?pre) (auto simp: init_gene_def)
  from assms pre obtain ins where
    ins: "init_inputs ?lo ?hi [0..<length (inputs g0)] (inputs g0) g1 = Inr (ins, g')"
    and gene: "gene = g0\<lparr>inputs := ins\<rparr>"
    by (auto simp: init_gene_def Let_def split: sum.splits prod.splits if_splits)
  from pre have g0: "(if node < num_nodes cfg then is_function_gene g0 else is_output_gene g0)"
    by (auto simp: FunctionGen_def OutputGen_def is_function_gene_def
        is_output_gene_def split: sum.splits prod.splits if_splits)
  from init_inputs_all[OF ins] have "\<forall>c \<in> set ins. in_legal_range cfg node c"
    by (simp add: in_legal_range_code Let_def)
  with g0 gene show ?thesis
    by (auto simp: is_function_gene_def is_output_gene_def split: if_splits)
qed

lemma init_genes_loop_ok:
  "init_genes_loop cfg [a..<a + n] gs g = Inr (gs', g') \<Longrightarrow> length gs = a \<Longrightarrow> genes_ok cfg gs
   \<Longrightarrow> genes_ok cfg gs' \<and> length gs' = a + n"
proof (induction n arbitrary: a gs g)
  case 0
  then show ?case by simp
next
  case (Suc n)
  have u: "[a..<a + Suc n] = a # [Suc a..<Suc a + n]" by (simp add: upt_conv_Cons)
  from Suc.prems(1) u obtain gene g1 where
    gene: "init_gene cfg (int a) g = Inr (gene, g1)"
    and rest: "init_genes_loop cfg [Suc a..<Suc a + n] (gs @ [gene]) g1 = Inr (gs', g')"
    by (auto split: sum.splits prod.splits)
  have len: "length (gs @ [gene]) = Suc a" using Suc.prems(2) by simp
  have "genes_ok cfg (gs @ [gene])"
    unfolding genes_ok_def
  proof (intro allI impI)
    fix k assume k: "k < length (gs @ [gene])"
    show "(if int k < num_nodes cfg then is_function_gene ((gs @ [gene]) ! k)
           else is_output_gene ((gs @ [gene]) ! k))
          \<and> (\<forall>c \<in> set (inputs ((gs @ [gene]) ! k)). in_legal_range cfg (int k) c)"
    proof (cases "k < length gs")
      case True
      with Suc.prems(3) show ?thesis by (simp add: genes_ok_def nth_append)
    next
      case False
      with k Suc.prems(2) have "k = a" by simp
      with init_gene_ok[OF gene] Suc.prems(2) show ?thesis by (simp add: nth_append)
    qed
  qed
  from Suc.IH[OF rest len this] show ?case by simp
qed

lemma check_active_genes:
  "check_active cfg ind = Inr ind' \<Longrightarrow> genes ind' = genes ind \<and> is_spawned ind'"
  by (auto simp: check_active_def is_spawned_def split: option.splits sum.splits)

lemma init_genes_ok:
  assumes "init_genes cfg ind g = Inr (ind', g')" and "genes ind = []"
  shows "individual_ok cfg ind'"
proof -
  let ?n = "nat (num_nodes cfg + num_output cfg)"
  from assms(1) obtain gs where
    loop: "init_genes_loop cfg [0..<?n] (genes ind) g = Inr (gs, g')"
    and act: "check_active cfg (ind\<lparr>genes := gs, active := Some (replicate (length gs) False)\<rparr>) = Inr ind'"
    by (auto simp: init_genes_def split: sum.splits prod.splits)
  have "genes_ok cfg []" by (simp add: genes_ok_def)
  with init_genes_loop_ok[of cfg 0 ?n "genes ind" g gs g'] loop assms(2)
  have "genes_ok cfg gs" "length gs = ?n" by auto
  with check_active_genes[OF act] show ?thesis by (simp add: individual_ok_def)
qed

lemma py_index_nonneg: "py_index xs i = Inr k \<Longrightarrow> 0 \<le> i \<Longrightarrow> int k = i \<and> k < length xs"
  by (auto simp: py_index_def split: if_splits)

lemma genes_ok_update:
  assumes "genes_ok cfg gs" and "k < length gs"
    and "is_function_gene (gs ! k) \<Longrightarrow> is_function_gene gene"
    and "is_output_gene (gs ! k) \<Longrightarrow> is_output_gene gene"
    and "\<forall>c \<in> set (inputs gene). in_legal_range cfg (int k) c"
  shows "genes_ok cfg (gs[k := gene])"
  unfolding genes_ok_def
proof (intro allI impI)
  fix j assume j: "j < length (gs[k := gene])"
  show "(if int j < num_nodes cfg then is_function_gene (gs[k := gene] ! j)
         else is_output_gene (gs[k := gene] ! j))
        \<and> (\<forall>c \<in> set (inputs (gs[k := gene] ! j)). in_legal_range cfg (int j) c)"
  proof (cases "j = k")
    case True
    with assms show ?thesis by (auto simp: genes_ok_def split: if_splits)
  next
    case False
    with assms(1) j show ?thesis by (simp add: genes_ok_def)
  qed
qed

lemma mutate_function_gene_while_no_attr:
  "fnc_idx gene = None \<Longrightarrow> mutate_function_gene_while cfg gene f g = Some (Inl AttributeError)"
  by (subst mutate_function_gene_while.simps) (simp add: get_fnc_idx_def)

lemma mutate_function_gene_ok:
  assumes "mutate_function_gene cfg ind idx g = Some (Inr (b, ind', g'))"
    and "0 \<le> idx" and "genes_ok cfg (genes ind)"
  shows "genes_ok cfg (genes ind') \<and> length (genes ind') = length (genes ind)
         \<and> active ind' = active ind"
proof -
  from assms(1) obtain k f' j where k: "py_index (genes ind) idx = Inr k"
    and ind': "ind' = ind\<lparr>genes := (genes ind)[k := (genes ind ! k)
                  \<lparr>fnc_idx := Some f', num_inputs := function_inputs cfg ! j\<rparr>]\<rparr>"
    by (auto simp: mutate_function_gene_def split: sum.splits prod.splits option.splits)
  from py_index_nonneg[OF k assms(2)] have kl: "k < length (genes ind)" by simp
  have "genes_ok cfg ((genes ind)[k := (genes ind ! k)
                  \<lparr>fnc_idx := Some f', num_inputs := function_inputs cfg ! j\<rparr>])"
  proof (rule genes_ok_update[OF assms(3) kl])
    show "is_function_gene (genes ind ! k) \<Longrightarrow>
      is_function_gene ((genes ind ! k)\<lparr>fnc_idx := Some f', num_inputs := function_inputs cfg ! j\<rparr>)"
      by (simp add: is_function_gene_def)
  next
    assume "is_output_gene (genes ind ! k)"
    moreover have "fnc_idx (genes ind ! k) \<noteq> None"
    proof
      assume n: "fnc_idx (genes ind ! k) = None"
      from assms(1) k show False
        by (auto simp: mutate_function_gene_def mutate_function_gene_while_no_attr[OF n]
            split: sum.splits prod.splits)
    qed
    ultimately show "is_output_gene ((genes ind ! k)\<lparr>fnc_idx := Some f', num_inputs := function_inputs cfg ! j\<rparr>)"
      by (simp add: is_output_gene_def)
  next
    from assms(3) kl
    show "\<forall>c \<in> set (inputs ((genes ind ! k)\<lparr>fnc_idx := Some f', num_inputs := function_inputs cfg ! j\<rparr>)).
        in_legal_range cfg (int k) c"
      by (simp add: genes_ok_def)
  qed
  with ind' show ?thesis by simp
qed

lemma mutate_connection_gene_while_range_aux:
  assumes "mutate_connection_gene_while lo hi cur n g = Some y"
  shows "lo \<le> n \<and> n < hi \<longrightarrow> (\<forall>n' g'. y = Inr (n', g') \<longrightarrow> lo \<le> n' \<and> n' < hi)"
proof (rule mutate_connection_gene_while.raw_induct[OF _ assms, where P = "\<lambda>lo hi cur n g y.
    lo \<le> n \<and> n < hi \<longrightarrow> (\<forall>n' g'. y = Inr (n', g') \<longrightarrow> lo \<le> n' \<and> n' < hi)"], goal_cases)
  case (1 loop lo hi cur n g y)
  show ?case
  proof (intro impI allI)
    fix n' g'
    assume n: "lo \<le> n \<and> n < hi" and y: "y = Inr (n', g')"
    show "lo \<le> n' \<and> n' < hi"
    proof (cases "n = cur")
      case False
      with 1(2) y n show ?thesis by simp
    next
      case True
      with 1(2) y obtain r g1 where r: "randint 0 (hi - lo) g = Inr (r, g1)"
        and l: "loop lo hi cur (lo + r) g1 = Some y"
        by (auto split: sum.splits prod.splits)
      from randint_range[OF r] have "lo \<le> lo + r \<and> lo + r < hi" by auto
      with 1(1)[OF l] y show ?thesis by simp
    qed
  qed
qed

lemma mutate_connection_gene_for_ok:
  assumes "mutate_connection_gene_for lo hi ind k slots g = Some (Inr (b, ind', g'))"
    and "genes_ok cfg (genes ind)" and "k < length (genes ind)"
    and "\<And>c. lo \<le> c \<and> c < hi \<Longrightarrow> in_legal_range cfg (int k) c"
  shows "genes_ok cfg (genes ind') \<and> length (genes ind') = length (genes ind)
         \<and> active ind' = active ind"
  using assms(1)
proof (induction slots arbitrary: g)
  case Nil
  with assms(2) show ?case by simp
next
  case (Cons i slots)
  from Cons.prems obtain coin g1 where coin: "randint 0 2 g = Inr (coin, g1)"
    by (auto split: sum.splits prod.splits)
  show ?case
  proof (cases "coin \<noteq> 0 \<and> hi - lo > 1")
    case False
    with Cons.prems coin
    have "mutate_connection_gene_for lo hi ind k slots g1 = Some (Inr (b, ind', g'))" by auto
    from Cons.IH[OF this] show ?thesis .
  next
    case True
    with Cons.prems coin obtain r g2 c n where r: "randint 0 (hi - lo) g1 = Inr (r, g2)"
      and c: "py_index (inputs (genes ind ! k)) (int i) = Inr c"
      and w: "mutate_connection_gene_while lo hi (inputs (genes ind ! k) ! c) (lo + r) g2
                = Some (Inr (n, g'))"
      and ind': "ind' = ind\<lparr>genes := (genes ind)[k := (genes ind ! k)
                     \<lparr>inputs := (inputs (genes ind ! k))[c := n]\<rparr>]\<rparr>"
      by (auto split: sum.splits prod.splits option.splits)
    from randint_range[OF r] have "lo \<le> lo + r \<and> lo + r < hi" by auto
    with mutate_connection_gene_while_range_aux[OF w] have n: "lo \<le> n \<and> n < hi" by simp
    have "genes_ok cfg ((genes ind)[k := (genes ind ! k)
                     \<lparr>inputs := (inputs (genes ind ! k))[c := n]\<rparr>])"
    proof (rule genes_ok_update[OF assms(2) assms(3)])
      show "is_function_gene (genes ind ! k) \<Longrightarrow>
        is_function_gene ((genes ind ! k)\<lparr>inputs := (inputs (genes ind ! k))[c := n]\<rparr>)"
        by (simp add: is_function_gene_def)
      show "is_output_gene (genes ind ! k) \<Longrightarrow>
        is_output_gene ((genes ind ! k)\<lparr>inputs := (inputs (genes ind ! k))[c := n]\<rparr>)"
        by (simp add: is_output_gene_def)
      show "\<forall>x \<in> set (inputs ((genes ind ! k)\<lparr>inputs := (inputs (genes ind ! k))[c := n]\<rparr>)).
          in_legal_range cfg (int k) x"
      proof
        fix x assume "x \<in> set (inputs ((genes ind ! k)\<lparr>inputs := (inputs (genes ind ! k))[c := n]\<rparr>))"
        then have "x \<in> insert n (set (inputs (genes ind ! k)))"
          using set_update_subset_insert[of "inputs (genes ind ! k)" c n] by auto
        with assms(2) assms(3) assms(4)[OF n] show "in_legal_range cfg (int k) x"
          by (auto simp: genes_ok_def)
      qed
    qed
    with ind' show ?thesis by simp
  qed
qed

lemma mutate_connection_gene_ok:
  assumes "mutate_connection_gene cfg ind idx g = Some (Inr (b, ind', g'))"
    and "0 \<le> idx" and "genes_ok cfg (genes ind)"
  shows "genes_ok cfg (genes ind') \<and> length (genes ind') = length (genes ind)
         \<and> active ind' = active ind"
proof -
  let ?col = "min (idx div rows cfg) (cols cfg)"
  let ?hi = "?col * rows cfg + num_input cfg"
  let ?lo = "if ?col - level_back cfg \<ge> 0 then (?col - level_back cfg) * rows cfg + num_input cfg else 0"
  from assms(1) obtain k where k: "py_index (genes ind) idx = Inr k"
    and f: "mutate_connection_gene_for ?lo ?hi ind k [0..<nat (num_inputs (genes ind ! k))] g
              = Some (Inr (b, ind', g'))"
    by (auto simp: mutate_connection_gene_def Let_def split: sum.splits if_splits)
  from py_index_nonneg[OF k assms(2)] have kk: "int k = idx" "k < length (genes ind)" by auto
  have "\<And>c. ?lo \<le> c \<and> c < ?hi \<Longrightarrow> in_legal_range cfg (int k) c"
    using kk by (simp add: in_legal_range_code Let_def)
  from mutate_connection_gene_for_ok[OF f assms(3) kk(2) this] show ?thesis .
qed

lemma mutate_while_ok_aux:
  assumes "mutate_while cfg num_genes cnt ind g = Some y"
  shows "genes_ok cfg (genes ind) \<longrightarrow>
         (\<forall>c ind' g'. y = Inr (c, ind', g') \<longrightarrow>
            genes_ok cfg (genes ind') \<and> length (genes ind') = length (genes ind)
            \<and> active ind' = active ind)"
proof (rule mutate_while.raw_induct[OF _ assms, where P = "\<lambda>cfg num_genes cnt ind g y.
    genes_ok cfg (genes ind) \<longrightarrow>
         (\<forall>c ind' g'. y = Inr (c, ind', g') \<longrightarrow>
            genes_ok cfg (genes ind') \<and> length (genes ind') = length (genes ind)
            \<and> active ind' = active ind)"], goal_cases)
  case (1 loop cfg num_genes cnt ind g y)
  show ?case
  proof (intro impI allI)
    fix c ind' g'
    assume ok: "genes_ok cfg (genes ind)" and y: "y = Inr (c, ind', g')"
    from 1(2) y obtain B where B: "mutation_budget cfg num_genes = Inr B"
      by (cases "mutation_budget cfg num_genes") auto
    show "genes_ok cfg (genes ind') \<and> length (genes ind') = length (genes ind)
            \<and> active ind' = active ind"
    proof (cases "cnt \<le> B")
      case False
      with 1(2) B y ok show ?thesis by auto
    next
      case True
      with 1(2) B y obtain idx g1 b1 ind1 g2 b2 ind2 g3 where
        idx: "randint 0 num_genes g = Inr (idx, g1)"
        and f: "(if idx < num_nodes cfg then mutate_function_gene cfg ind idx g1
                 else Some (Inr (False, ind, g1))) = Some (Inr (b1, ind1, g2))"
        and cg: "mutate_connection_gene cfg ind1 idx g2 = Some (Inr (b2, ind2, g3))"
        and l: "loop cfg num_genes (cnt + of_bool b1 + of_bool b2) ind2 g3 = Some y"
        by (auto split: sum.splits prod.splits option.splits)
      from randint_range[OF idx] have i0: "0 \<le> idx" by simp
      have s1: "genes_ok cfg (genes ind1) \<and> length (genes ind1) = length (genes ind)
         \<and> active ind1 = active ind"
      proof (cases "idx < num_nodes cfg")
        case True
        with f have "mutate_function_gene cfg ind idx g1 = Some (Inr (b1, ind1, g2))" by simp
        from mutate_function_gene_ok[OF this i0 ok] show ?thesis .
      next
        case False
        with f ok show ?thesis by simp
      qed
      then have ok1: "genes_ok cfg (genes ind1)" by simp
      from mutate_connection_gene_ok[OF cg i0 ok1] s1
      have s2: "genes_ok cfg (genes ind2) \<and> length (genes ind2) = length (genes ind)
         \<and> active ind2 = active ind" by simp
      with 1(1)[OF l] y show ?thesis by simp
    qed
  qed
qed

lemma mutate_ok_aux:
  assumes "mutate cfg force ind g = Some y"
  shows "individual_ok cfg ind \<longrightarrow>
         (\<forall>ind' g'. y = Inr (ind', g') \<longrightarrow> individual_ok cfg ind' \<and> is_spawned ind')"
proof (rule mutate.raw_induct[OF _ assms, where P = "\<lambda>cfg force ind g y.
    individual_ok cfg ind \<longrightarrow>
         (\<forall>ind' g'. y = Inr (ind', g') \<longrightarrow> individual_ok cfg ind' \<and> is_spawned ind')"], goal_cases)
  case (1 mut cfg force ind g y)
  show ?case
  proof (intro impI allI)
    fix ind' g'
    assume ok: "individual_ok cfg ind" and y: "y = Inr (ind', g')"
    from 1(2) y obtain ind0 g0 cnt ind1 g1 ind2 where
      i: "(if \<not> is_spawned ind then init_genes cfg ind g else Inr (ind, g)) = Inr (ind0, g0)"
      and w: "mutate_while cfg (int (length (genes ind0))) 0 ind0 g0 = Some (Inr (cnt, ind1, g1))"
      and c: "check_active cfg ind1 = Inr ind2"
      and r: "(if force \<and> active ind2 = active ind0 then mut cfg force ind2 g1
               else Some (Inr (ind2, g1))) = Some y"
      by (auto split: option.splits sum.splits prod.splits)
    have ok0: "individual_ok cfg ind0 \<and> is_spawned ind0"
    proof (cases "is_spawned ind")
      case True
      with i ok show ?thesis by simp
    next
      case False
      with i ok have "init_genes cfg ind g = Inr (ind0, g0)" "genes ind = []"
        by (simp_all add: individual_ok_def)
      from init_genes_ok[OF this] this(1) show ?thesis
        by (auto simp: init_genes_def dest: check_active_genes split: sum.splits prod.splits)
    qed
    from mutate_while_ok_aux[OF w] ok0
    have "genes_ok cfg (genes ind1)" "length (genes ind1) = length (genes ind0)"
      by (simp_all add: individual_ok_def)
    with check_active_genes[OF c] ok0 have ok2: "individual_ok cfg ind2 \<and> is_spawned ind2"
      by (simp add: individual_ok_def)
    show "individual_ok cfg ind' \<and> is_spawned ind'"
    proof (cases "force \<and> active ind2 = active ind0")
      case True
      with r have "mut cfg force ind2 g1 = Some y" by simp
      from 1(1)[OF this] ok2 y show ?thesis by simp
    next
      case False
      with r y ok2 show ?thesis by auto
    qed
  qed
qed

lemma reachable_ok: "reachable cfg ind \<Longrightarrow> individual_ok cfg ind"
proof (induction rule: reachable.induct)
  case reachable_new
  show ?case by (simp add: individual_ok_def genes_ok_def Individual_init_def is_spawned_def)
next
  case (reachable_spawn g ind g')
  then show ?case using init_genes_ok[of cfg Individual_init g ind g']
    by (simp add: spawn_def Individual_init_def)
next
  case (reachable_mutate ind force g ind' g')
  from mutate_ok_aux[OF reachable_mutate(2)] reachable_mutate(3) show ?case by simp
next
  case (reachable_clone ind ind')
  then show ?case
    by (auto simp: clone_def individual_ok_def is_spawned_def split: option.splits)
next
  case (reachable_evaluated ind s tp a m)
  then show ?case by (simp add: individual_ok_def is_spawned_def)
qed

lemma init_inputs_error: "init_inputs lo hi slots ins g = Inl e \<Longrightarrow> e = ValueError"
proof (induction slots arbitrary: ins g)
  case Nil
  then show ?case by simp
next
  case (Cons i slots)
  show ?case
  proof (cases "randint 0 (hi - lo) g")
    case (Inl e')
    with Cons.prems randint_error[OF Inl] show ?thesis by simp
  next
    case (Inr p)
    obtain r g1 where "p = (r, g1)" by (cases p)
    with Cons.prems Inr have "init_inputs lo hi slots (ins[i := lo + r]) g1 = Inl e" by simp
    from Cons.IH[OF this] show ?thesis .
  qed
qed

lemma np_zeros_error: "np_zeros n = Inl e \<Longrightarrow> e = ValueError"
  by (auto simp: np_zeros_def split: if_splits)

lemma init_gene_error: "init_gene cfg node g = Inl e \<Longrightarrow> e \<noteq> AttributeError"
  by (auto simp: init_gene_def Let_def FunctionGen_def OutputGen_def
      split: sum.splits prod.splits if_splits
      dest: randint_error py_index_error np_zeros_error init_inputs_error)

lemma init_genes_loop_error: "init_genes_loop cfg nodes gs g = Inl e \<Longrightarrow> e \<noteq> AttributeError"
proof (induction nodes arbitrary: gs g)
  case Nil
  then show ?case by simp
next
  case (Cons node nodes)
  show ?case
  proof (cases "init_gene cfg (int node) g")
    case (Inl e')
    with Cons.prems init_gene_error[OF Inl] show ?thesis by simp
  next
    case (Inr p)
    obtain gene g1 where "p = (gene, g1)" by (cases p)
    with Cons.prems Inr have "init_genes_loop cfg nodes (gs @ [gene]) g1 = Inl e" by simp
    from Cons.IH[OF this] show ?thesis .
  qed
qed

lemma walk_to_out_error:
  "walk_to_out d cfg gs act node = Inl e \<Longrightarrow> e = IndexError \<or> e = RecursionError"
proof (induction d arbitrary: act node e)
  case 0
  then show ?case by simp
next
  case (Suc d)
  show ?case
  proof (cases "py_index act node")
    case (Inl e')
    with Suc.prems py_index_error[OF Inl] show ?thesis by simp
  next
    case (Inr k)
    note k = this
    show ?thesis
    proof (cases "act ! k")
      case True
      with k Suc.prems show ?thesis by simp
    next
      case False
      note unmarked = this
      show ?thesis
      proof (cases "py_index gs node")
        case (Inl e')
        with k unmarked Suc.prems py_index_error[OF Inl] show ?thesis by simp
      next
        case (Inr j)
        let ?step = "\<lambda>i r. case r of Inl e \<Rightarrow> Inl e
                        | Inr a \<Rightarrow>
                            (case py_index (inputs (gs ! j)) (int i) of
                               Inl e \<Rightarrow> Inl e
                             | Inr c \<Rightarrow>
                                 if inputs (gs ! j) ! c \<ge> num_input cfg
                                 then walk_to_out d cfg gs a (inputs (gs ! j) ! c - num_input cfg)
                                 else Inr a)"
        let ?P = "\<lambda>r. \<forall>e. r = Inl e \<longrightarrow> e = IndexError \<or> e = RecursionError"
        have step: "?P (fold ?step slots r)" if "?P r" for slots r
          using that
        proof (induction slots arbitrary: r)
          case Nil
          then show ?case by simp
        next
          case (Cons i slots)
          have "?P (?step i r)"
          proof (cases r)
            case (Inl e')
            with Cons.prems show ?thesis by simp
          next
            case (Inr a)
            then show ?thesis
              using Suc.IH by (auto split: sum.splits dest: py_index_error)
          qed
          from Cons.IH[OF this] show ?case by simp
        qed
        from step[of "Inr (act[k := True])" "[0..<nat (num_inputs (gs ! j))]"] k unmarked Inr Suc.prems
        show ?thesis by auto
      qed
    qed
  qed
qed

lemma check_active_error:
  "check_active cfg ind = Inl e \<Longrightarrow> e = TypeError \<or> e = IndexError"
proof (cases "active ind")
  case None
  assume "check_active cfg ind = Inl e"
  with None show ?thesis by (simp add: check_active_def)
next
  case (Some act)
  assume a: "check_active cfg ind = Inl e"
  let ?step = "\<lambda>node r. case r of Inl e \<Rightarrow> Inl e
                   | Inr a \<Rightarrow> walk_to_out (Suc (length a)) cfg (genes ind) a (num_nodes cfg + int node)"
  let ?P = "\<lambda>r. \<forall>e. r = Inl e \<longrightarrow> e = IndexError \<or> e = RecursionError"
  have "?P (fold ?step nodes r)" if "?P r" for nodes r
    using that
  proof (induction nodes arbitrary: r)
    case Nil
    then show ?case by simp
  next
    case (Cons node nodes)
    have "?P (?step node r)"
    proof (cases r)
      case (Inl e')
      with Cons.prems show ?thesis by simp
    next
      case (Inr a)
      then show ?thesis using walk_to_out_error by (auto simp del: walk_to_out.simps)
    qed
    from Cons.IH[OF this] show ?case by (simp del: walk_to_out.simps)
  qed
  from this[of "Inr (replicate (length act) False)" "[0..<nat (num_output cfg)]"] Some a
  have "e = IndexError \<or> e = RecursionError"
    by (auto simp del: walk_to_out.simps simp: check_active_def split: sum.splits)
  with check_active_no_recursion_error[of cfg ind] a show ?thesis by auto
qed

lemma init_genes_error: "init_genes cfg ind g = Inl e \<Longrightarrow> e \<noteq> AttributeError"
  by (auto simp: init_genes_def split: sum.splits prod.splits
      dest: init_genes_loop_error check_active_error)

lemma mutate_function_gene_while_error_aux:
  assumes "mutate_function_gene_while cfg gene f g = Some y"
  shows "fnc_idx gene \<noteq> None \<longrightarrow> (\<forall>e. y = Inl e \<longrightarrow> e = ValueError)"
proof (rule mutate_function_gene_while.raw_induct[OF _ assms, where P = "\<lambda>cfg gene f g y.
    fnc_idx gene \<noteq> None \<longrightarrow> (\<forall>e. y = Inl e \<longrightarrow> e = ValueError)"], goal_cases)
  case (1 loop cfg gene f g y)
  show ?case
  proof (intro impI allI)
    fix e assume n: "fnc_idx gene \<noteq> None" and y: "y = Inl e"
    then obtain cur where cur: "fnc_idx gene = Some cur" by auto
    show "e = ValueError"
    proof (cases "f = cur")
      case False
      with 1(2) cur y show ?thesis by (simp add: get_fnc_idx_def)
    next
      case True
      show ?thesis
      proof (cases "randint 0 (num_func_genes cfg) g")
        case (Inl e')
        with 1(2) cur y True randint_error[OF Inl] show ?thesis by (simp add: get_fnc_idx_def)
      next
        case (Inr p)
        obtain f' g1 where "p = (f', g1)" by (cases p)
        with 1(2) cur True Inr have "loop cfg gene f' g1 = Some y" by (simp add: get_fnc_idx_def)
        from 1(1)[OF this] n y show ?thesis by simp
      qed
    qed
  qed
qed

lemma mutate_function_gene_error:
  assumes "mutate_function_gene cfg ind idx g = Some (Inl e)"
    and "py_index (genes ind) idx = Inr k" and "fnc_idx (genes ind ! k) \<noteq> None"
  shows "e \<noteq> AttributeError"
proof (cases "randint 0 (num_func_genes cfg) g")
  case (Inl e')
  with assms(1) randint_error[OF Inl] show ?thesis by (simp add: mutate_function_gene_def)
next
  case (Inr p)
  obtain f g1 where p: "p = (f, g1)" by (cases p)
  show ?thesis
  proof (cases "mutate_function_gene_while cfg (genes ind ! k) f g1")
    case None
    with assms(1,2) Inr p show ?thesis by (simp add: mutate_function_gene_def)
  next
    case (Some y)
    show ?thesis
    proof (cases y)
      case (Inl e')
      with mutate_function_gene_while_error_aux[OF Some] assms(3) have "e' = ValueError" by simp
      with assms(1,2) Inr p Some Inl show ?thesis by (simp add: mutate_function_gene_def)
    next
      case r: (Inr q)
      obtain f' g2 where "q = (f', g2)" by (cases q)
      with assms(1,2) Inr p Some r show ?thesis
        by (auto simp: mutate_function_gene_def split: sum.splits dest: py_index_error)
    qed
  qed
qed

lemma mutate_connection_gene_while_error_aux:
  assumes "mutate_connection_gene_while lo hi cur n g = Some y"
  shows "\<forall>e. y = Inl e \<longrightarrow> e = ValueError"
proof (rule mutate_connection_gene_while.raw_induct[OF _ assms, where P = "\<lambda>lo hi cur n g y.
    \<forall>e. y = Inl e \<longrightarrow> e = ValueError"], goal_cases)
  case (1 loop lo hi cur n g y)
  show ?case
  proof (intro impI allI)
    fix e assume y: "y = Inl e"
    show "e = ValueError"
    proof (cases "n = cur")
      case False
      with 1(2) y show ?thesis by simp
    next
      case True
      show ?thesis
      proof (cases "randint 0 (hi - lo) g")
        case (Inl e')
        with 1(2) y True randint_error[OF Inl] show ?thesis by simp
      next
        case (Inr p)
        obtain r g1 where "p = (r, g1)" by (cases p)
        with 1(2) True Inr have "loop lo hi cur (lo + r) g1 = Some y" by simp
        from 1(1)[OF this] y show ?thesis by simp
      qed
    qed
  qed
qed

lemma mutate_connection_gene_for_error:
  "mutate_connection_gene_for lo hi ind k slots g = Some (Inl e) \<Longrightarrow> e \<noteq> AttributeError"
proof (induction slots arbitrary: g)
  case Nil
  then show ?case by simp
next
  case (Cons i slots)
  show ?case
  proof (cases "randint 0 2 g")
    case (Inl e')
    with Cons.prems randint_error[OF Inl] show ?thesis by simp
  next
    case (Inr p)
    obtain coin g1 where p: "p = (coin, g1)" by (cases p)
    show ?thesis
    proof (cases "coin \<noteq> 0 \<and> hi - lo > 1")
      case False
      with Cons.prems Inr p have "mutate_connection_gene_for lo hi ind k slots g1 = Some (Inl e)"
        by auto
      from Cons.IH[OF this] show ?thesis .
    next
      case True
      with Cons.prems Inr p show ?thesis
        using mutate_connection_gene_while_error_aux
        by (fastforce split: sum.splits prod.splits option.splits
            dest: randint_error py_index_error)
    qed
  qed
qed

lemma mutate_connection_gene_error:
  "mutate_connection_gene cfg ind idx g = Some (Inl e) \<Longrightarrow> e \<noteq> AttributeError"
  by (auto simp: mutate_connection_gene_def Let_def split: if_splits sum.splits
      dest: py_index_error mutate_connection_gene_for_error)

lemma mutation_budget_error:
  "mutation_budget cfg n = Inl e \<Longrightarrow> e = OverflowError \<or> e = ValueError"
  by (auto simp: mutation_budget_def int_mul_float_def float_of_int_def py_int_def
      split: sum.splits py_float.splits)

lemma mutate_while_error_aux:
  assumes "mutate_while cfg num_genes cnt ind g = Some y"
  shows "genes_ok cfg (genes ind) \<longrightarrow> (\<forall>e. y = Inl e \<longrightarrow> e \<noteq> AttributeError)"
proof (rule mutate_while.raw_induct[OF _ assms, where P = "\<lambda>cfg num_genes cnt ind g y.
    genes_ok cfg (genes ind) \<longrightarrow> (\<forall>e. y = Inl e \<longrightarrow> e \<noteq> AttributeError)"], goal_cases)
  case (1 loop cfg num_genes cnt ind g y)
  show ?case
  proof (intro impI allI)
    fix e
    assume ok: "genes_ok cfg (genes ind)" and y: "y = Inl e"
    show "e \<noteq> AttributeError"
    proof (cases "mutation_budget cfg num_genes")
      case (Inl e0)
      with 1(2) y have "e = e0" by simp
      with mutation_budget_error[OF Inl] show ?thesis by auto
    next
      case B: (Inr B)
      from 1(2) y B have le: "cnt \<le> B" by (auto split: if_splits)
      show ?thesis
      proof (cases "randint 0 num_genes g")
        case (Inl e')
        with 1(2) B y le randint_error[OF Inl] show ?thesis by simp
      next
        case (Inr p)
        obtain idx g1 where p: "p = (idx, g1)" by (cases p)
        from randint_range Inr p have i0: "0 \<le> idx" by blast
        let ?f = "if idx < num_nodes cfg then mutate_function_gene cfg ind idx g1
                   else Some (Inr (False, ind, g1))"
        from 1(2) B le Inr p y obtain r1 where r1: "?f = Some r1"
          by (cases ?f) auto
        show ?thesis
        proof (cases r1)
          case (Inl e1)
          with 1(2) B le Inr p y r1 have e1: "e1 = e" and lt: "idx < num_nodes cfg"
            and m: "mutate_function_gene cfg ind idx g1 = Some (Inl e)"
            by (auto split: if_splits)
          show ?thesis
          proof (cases "py_index (genes ind) idx")
            case (Inl e2)
            with m py_index_error[OF Inl] show ?thesis
              by (auto simp: mutate_function_gene_def split: sum.splits prod.splits
                  dest: randint_error)
          next
            case k: (Inr k)
            from py_index_nonneg[OF k i0] lt ok have "is_function_gene (genes ind ! k)"
              by (auto simp: genes_ok_def split: if_splits)
            then have "fnc_idx (genes ind ! k) \<noteq> None" by (simp add: is_function_gene_def)
            from mutate_function_gene_error[OF m k this] show ?thesis .
          qed
        next
          case r: (Inr q1)
          obtain b1 ind1 g2 where q1: "q1 = (b1, ind1, g2)" by (cases q1)
          have ok1: "genes_ok cfg (genes ind1)"
          proof (cases "idx < num_nodes cfg")
            case True
            with r1 r q1 have "mutate_function_gene cfg ind idx g1 = Some (Inr (b1, ind1, g2))" by simp
            from mutate_function_gene_ok[OF this i0 ok] show ?thesis by simp
          next
            case False
            with r1 r q1 ok show ?thesis by simp
          qed
          from 1(2) B le Inr p y r1 r q1 obtain r2 where
            r2: "mutate_connection_gene cfg ind1 idx g2 = Some r2"
            by (cases "mutate_connection_gene cfg ind1 idx g2") auto
          show ?thesis
          proof (cases r2)
            case (Inl e2)
            with 1(2) B le Inr p y r1 r q1 r2 have "e2 = e" by simp
            with mutate_connection_gene_error[of cfg ind1 idx g2 e2] r2 Inl show ?thesis by simp
          next
            case rr: (Inr q2)
            obtain b2 ind2 g3 where q2: "q2 = (b2, ind2, g3)" by (cases q2)
            from mutate_connection_gene_ok[OF _ i0 ok1, of g2 b2 ind2 g3] r2 rr q2
            have ok2: "genes_ok cfg (genes ind2)" by simp
            from 1(2) B le Inr p r1 r q1 r2 rr q2
            have "loop cfg num_genes (cnt + of_bool b1 + of_bool b2) ind2 g3 = Some y" by simp
            from 1(1)[OF this] ok2 y show ?thesis by simp
          qed
        qed
      qed
    qed
  qed
qed

lemma mutate_error_aux:
  assumes "mutate cfg force ind g = Some y"
  shows "individual_ok cfg ind \<longrightarrow> (\<forall>e. y = Inl e \<longrightarrow> e \<noteq> AttributeError)"
proof (rule mutate.raw_induct[OF _ assms, where P = "\<lambda>cfg force ind g y.
    individual_ok cfg ind \<longrightarrow> (\<forall>e. y = Inl e \<longrightarrow> e \<noteq> AttributeError)"], goal_cases)
  case (1 mut cfg force ind g y)
  show ?case
  proof (intro impI allI)
    fix e
    assume ok: "individual_ok cfg ind" and y: "y = Inl e"
    let ?i = "if \<not> is_spawned ind then init_genes cfg ind g else Inr (ind, g)"
    show "e \<noteq> AttributeError"
    proof (cases ?i)
      case (Inl e')
      with 1(2) y have "init_genes cfg ind g = Inl e" by (auto split: if_splits)
      from init_genes_error[OF this] show ?thesis .
    next
      case (Inr p)
      obtain ind0 g0 where p: "p = (ind0, g0)" by (cases p)
      have ok0: "individual_ok cfg ind0"
      proof (cases "is_spawned ind")
        case True
        with Inr p ok show ?thesis by simp
      next
        case False
        with Inr p ok have "init_genes cfg ind g = Inr (ind0, g0)" "genes ind = []"
          by (simp_all add: individual_ok_def)
        from init_genes_ok[OF this] show ?thesis .
      qed
      from 1(2) Inr p obtain r where
        r: "mutate_while cfg (int (length (genes ind0))) 0 ind0 g0 = Some r"
        by (cases "mutate_while cfg (int (length (genes ind0))) 0 ind0 g0") auto
      show ?thesis
      proof (cases r)
        case (Inl e')
        with 1(2) Inr p r y have "e' = e" by simp
        with mutate_while_error_aux[OF r] ok0 Inl show ?thesis by (simp add: individual_ok_def)
      next
        case rr: (Inr q)
        obtain cnt ind1 g1 where q: "q = (cnt, ind1, g1)" by (cases q)
        from mutate_while_ok_aux[OF r] ok0 rr q
        have ok1: "genes_ok cfg (genes ind1)" "length (genes ind1) = length (genes ind0)"
          by (simp_all add: individual_ok_def)
        show ?thesis
        proof (cases "check_active cfg ind1")
          case (Inl e')
          with 1(2) Inr p r rr q y have "e' = e" by simp
          with check_active_error[OF Inl] show ?thesis by auto
        next
          case c: (Inr ind2)
          from check_active_genes[OF c] ok1 have g2: "genes ind2 = genes ind1" "is_spawned ind2"
            by simp_all
          from 1(2) Inr p r rr q c y have m: "mut cfg force ind2 g1 = Some y"
            by (auto split: if_splits)
          have spawned0: "is_spawned ind0"
            using Inr p check_active_genes
            by (auto simp: init_genes_def split: if_splits sum.splits prod.splits)
          with ok0 ok1 g2 have "individual_ok cfg ind2" by (simp add: individual_ok_def)
          with 1(1)[OF m] y show ?thesis by simp
        qed
      qed
    qed
  qed
qed

lemma list_all_enumerate:
  "list_all (\<lambda>(k, x). P k x) (enumerate 0 xs) = (\<forall>k < length xs. P k (xs ! k))"
  by (simp add: list_all_length nth_enumerate_eq)

lemma div_lt:
  assumes "0 < (b::int)" and "a < k * b"
  shows "a div b < k"
proof (rule ccontr)
  assume "\<not> a div b < k"
  then have "k * b \<le> a div b * b" using assms(1) by (simp add: mult_right_mono)
  moreover have "a div b * b \<le> a"
    using div_mult_mod_eq[of a b] pos_mod_sign[OF assms(1), of a] by linarith
  ultimately show False using assms(2) by linarith
qed

lemma div_ge:
  assumes "0 < (b::int)" and "k * b \<le> a"
  shows "k \<le> a div b"
proof (rule ccontr)
  assume "\<not> k \<le> a div b"
  then have "a div b + 1 \<le> k" by simp
  then have "(a div b + 1) * b \<le> k * b" using assms(1) by (simp add: mult_right_mono)
  moreover have "(a div b + 1) * b = a div b * b + b" by (simp add: algebra_simps)
  moreover have "a < a div b * b + b"
    using div_mult_mod_eq[of a b] pos_mod_bound[OF assms(1), of a] by linarith
  ultimately show False using assms(2) by linarith
qed

lemma in_legal_range_refers_back:
  assumes r: "0 < rows cfg" and ni: "0 \<le> num_input cfg" and l: "in_legal_range cfg position c"
  shows "refers_back cfg position c"
proof -
  let ?col = "min (position div rows cfg) (cols cfg)"
  from l have hi: "c < ?col * rows cfg + num_input cfg"
    and lo: "(if ?col - level_back cfg < 0 then 0
              else (?col - level_back cfg) * rows cfg + num_input cfg) \<le> c"
    by (simp_all add: in_legal_range_def legal_range_def Let_def)
  show ?thesis
  proof (cases "c < num_input cfg")
    case True
    have "0 \<le> c"
    proof (cases "?col - level_back cfg < 0")
      case True
      with lo show ?thesis by simp
    next
      case False
      then have "0 \<le> ?col - level_back cfg" by linarith
      then have "0 \<le> (?col - level_back cfg) * rows cfg"
        using r by (intro mult_nonneg_nonneg) linarith+
      with lo False ni show ?thesis by simp
    qed
    with True show ?thesis by (simp add: refers_back_def Let_def)
  next
    case False
    from hi have "c - num_input cfg < ?col * rows cfg" by simp
    from div_lt[OF r this] have before: "(c - num_input cfg) div rows cfg < ?col" .
    have window: "?col - level_back cfg \<le> (c - num_input cfg) div rows cfg"
    proof (cases "?col - level_back cfg < 0")
      case True
      from False r have "0 \<le> (c - num_input cfg) div rows cfg"
        by (simp add: pos_imp_zdiv_nonneg_iff)
      with True show ?thesis by linarith
    next
      case ge: False
      with lo have "(?col - level_back cfg) * rows cfg \<le> c - num_input cfg" by simp
      from div_ge[OF r this] show ?thesis .
    qed
    from False before window show ?thesis by (simp add: refers_back_def Let_def)
  qed
qed

lemma sum_result: "map_sum id fst x = Inr v \<Longrightarrow> \<exists>g'. x = Inr (v, g')"
  by (cases x) auto


lemma example_reachable: "reachable example_cfg example_ind \<and> reachable example_cfg example_mutated"
proof -
  from example_individuals_spawned have "map_sum id fst (spawn example_cfg (draws [])) = Inr example_ind"
    by simp
  from sum_result[OF this] obtain g' where "spawn example_cfg (draws []) = Inr (example_ind, g')" ..
  then have r: "reachable example_cfg example_ind" by (rule reachable_spawn)
  from result_individual[OF example_mutate_retry] obtain g'' where
    "mutate example_cfg True example_ind (draws [1, 1, 0, 0, 2, 1, 1]) = Some (Inr (example_mutated, g''))" ..
  from reachable_mutate[OF r this] r show ?thesis by simp
qed

text \<open>
  Claim C4. In every individual that initialisation, mutation, cloning and evaluation
  can produce, every live connection of every gene lies in the legal range of the
  gene's position; and on a grid with a positive number of rows (and no negative
  number of external inputs) such a value is an external input or a node of an
  earlier column within the level-back window.
\<close>

theorem reachable_connections_legal:
  assumes "reachable cfg ind"
  shows "connections_legal cfg ind
         \<and> (0 < rows cfg \<and> 0 \<le> num_input cfg \<longrightarrow> connections_refer_back cfg ind)"
proof -
  from reachable_ok[OF assms] have ok: "genes_ok cfg (genes ind)" by (simp add: individual_ok_def)
  have live: "in_legal_range cfg (int k) c"
    if "k < length (genes ind)" "c \<in> set (live_connections (genes ind ! k))" for k c
  proof -
    from that(2) have "c \<in> set (inputs (genes ind ! k))"
      unfolding live_connections_def by (rule in_set_takeD)
    with ok that(1) show ?thesis by (simp add: genes_ok_def)
  qed
  have "connections_legal cfg ind"
    unfolding connections_legal_def list_all_enumerate
    by (auto simp: list_all_iff intro: live)
  moreover have "connections_refer_back cfg ind" if "0 < rows cfg" "0 \<le> num_input cfg"
    unfolding connections_refer_back_def list_all_enumerate
    by (auto simp: list_all_iff intro: live in_legal_range_refers_back[OF that])
  ultimately show ?thesis by simp
qed


theorem reachable_connections_legal_witness:
  "reachable example_cfg example_mutated
   \<and> connections_legal example_cfg example_mutated
   \<and> 0 < rows example_cfg \<and> 0 \<le> num_input example_cfg
   \<and> connections_refer_back example_cfg example_mutated"
proof -
  from example_reachable have r: "reachable example_cfg example_mutated" by simp
  have c: "0 < rows example_cfg \<and> 0 \<le> num_input example_cfg" by (simp add: example_cfg_def)
  from reachable_connections_legal[OF r] r c show ?thesis by simp
qed

text \<open>
  Claim C10. A spawned individual keeps the layout: function genes at the positions
  below \<open>num_nodes\<close>, output genes after them. \<open>mutate\<close> never raises
  \<^verbatim>\<open>AttributeError\<close> on it, whereas the function mutation applied to one of its
  output genes would: the test \<^verbatim>\<open>idx < num_nodes\<close> in \<open>mutate\<close> is what keeps the
  \<^verbatim>\<open>fnc_idx\<close> field from being read on an output gene.
\<close>

theorem reachable_layout:
  assumes "reachable cfg ind" and "is_spawned ind"
  shows "layout cfg ind
       \<and> (\<forall>force g. mutate cfg force ind g \<noteq> Some (Inl AttributeError))
       \<and> (\<forall>k g. k < length (genes ind) \<longrightarrow> \<not> int k < num_nodes cfg \<longrightarrow> 0 < num_func_genes cfg \<longrightarrow>
              mutate_function_gene cfg ind (int k) g = Some (Inl AttributeError))"
proof (intro conjI allI impI)
  from reachable_ok[OF assms(1)] assms(2)
  have ok: "genes_ok cfg (genes ind)"
    and len: "length (genes ind) = nat (num_nodes cfg + num_output cfg)"
    by (simp_all add: individual_ok_def)
  then show "layout cfg ind"
    by (simp add: layout_def list_all_enumerate genes_ok_def)
  fix k g
  assume k: "k < length (genes ind)" and out: "\<not> int k < num_nodes cfg" and nf: "0 < num_func_genes cfg"
  from ok k out have "is_output_gene (genes ind ! k)"
    by (auto simp: genes_ok_def split: if_splits)
  then have "fnc_idx (genes ind ! k) = None" by (simp add: is_output_gene_def)
  from mutate_function_gene_while_no_attr[OF this] k nf
  show "mutate_function_gene cfg ind (int k) g = Some (Inl AttributeError)"
    by (simp add: mutate_function_gene_def randint_def py_index_def)
next
  fix force g
  show "mutate cfg force ind g \<noteq> Some (Inl AttributeError)"
  proof
    assume "mutate cfg force ind g = Some (Inl AttributeError)"
    from mutate_error_aux[OF this] reachable_ok[OF assms(1)] show False by simp
  qed
qed

theorem reachable_layout_witness:
  "reachable example_cfg example_mutated \<and> is_spawned example_mutated
   \<and> layout example_cfg example_mutated
   \<and> mutate example_cfg True example_mutated (draws [2, 1, 0]) \<noteq> Some (Inl AttributeError)
   \<and> mutate_function_gene example_cfg example_mutated 2 (draws []) = Some (Inl AttributeError)"
proof -
  from example_reachable have r: "reachable example_cfg example_mutated" by simp
  have sp: "is_spawned example_mutated" by (simp add: is_spawned_def example_mutated_def)
  have "(2::nat) < length (genes example_mutated)" "\<not> int 2 < num_nodes example_cfg"
    "0 < num_func_genes example_cfg"
    by (simp_all add: example_mutated_def example_cfg_def)
  with reachable_layout[OF r sp] r sp show ?thesis by auto
qed

subsection \<open>The mutation budget\<close>














text \<open>The pass of the worked example: one event, on the output gene.\<close>

lemma example_mutate_while:
  "map_option (map_sum id (\<lambda>(cnt, ind', g'). (cnt, ind')))
      (mutate_while example_cfg 3 0 example_ind (draws [2, 1, 1]))
    = Some (Inr (1, example_ind\<lparr>genes := (genes example_ind)
          [2 := \<lparr> is_output = True, fnc_idx = None, inputs = [2, 1], num_inputs = 1 \<rparr>]\<rparr>))"
  by code_simp



subsection \<open>A clone and its source share no object\<close>

text \<open>Writes at or above \<open>n\<close> leave the store below \<open>n\<close> as it is.\<close>

lemma same_below_refl: "same_below n st st"
  by (simp add: same_below_def)

lemma same_below_trans: "same_below n st st1 \<Longrightarrow> same_below n st1 st2 \<Longrightarrow> same_below n st st2"
  by (simp add: same_below_def)

lemma same_below_mono: "same_below n st st' \<Longrightarrow> m \<le> n \<Longrightarrow> same_below m st st'"
  by (simp add: same_below_def)

lemma above_cong:
  assumes "individuals st' = individuals st" and "gene_lists st' = gene_lists st"
    and "\<And>a. map_option o_inputs (gene_objs st' a) = map_option o_inputs (gene_objs st a)"
  shows "above n st' c = above n st c"
proof -
  have h: "(\<lambda>a. n \<le> a \<and> (case gene_objs st' a of None \<Rightarrow> True | Some gobj \<Rightarrow> n \<le> o_inputs gobj))
      = (\<lambda>a. n \<le> a \<and> (case gene_objs st a of None \<Rightarrow> True | Some gobj \<Rightarrow> n \<le> o_inputs gobj))"
  proof
    fix a
    show "(n \<le> a \<and> (case gene_objs st' a of None \<Rightarrow> True | Some gobj \<Rightarrow> n \<le> o_inputs gobj))
      = (n \<le> a \<and> (case gene_objs st a of None \<Rightarrow> True | Some gobj \<Rightarrow> n \<le> o_inputs gobj))"
      using assms(3)[of a] by (cases "gene_objs st' a"; cases "gene_objs st a") auto
  qed
  show ?thesis unfolding above_def assms(1) assms(2) h ..
qed

lemma above_active:
  "above n st c \<Longrightarrow> self_active st c = Inr (am, act) \<Longrightarrow> n \<le> am"
  by (auto simp: above_def self_active_def split: option.splits)

lemma above_gene:
  assumes "above n st c" and "self_gene st c idx = Inr (ga, gobj)"
  shows "n \<le> ga \<and> n \<le> o_inputs gobj \<and> gene_objs st ga = Some gobj"
proof -
  from assms(2) obtain io l k where io: "individuals st c = Some io"
    and l: "gene_lists st (i_genes io) = Some l" and k: "py_index l idx = Inr k"
    and ga: "ga = l ! k" and g: "gene_objs st (l ! k) = Some gobj"
    by (auto simp: self_gene_def self_genes_def split: option.splits sum.splits)
  from k have "k < length l" by (auto simp: py_index_def split: if_splits)
  with assms(1) io l have "n \<le> l ! k \<and> (case gene_objs st (l ! k) of None \<Rightarrow> True
      | Some gobj \<Rightarrow> n \<le> o_inputs gobj)"
    by (auto simp: above_def list_all_length)
  with ga g show ?thesis by simp
qed

lemma above_spawned: "above n st c \<Longrightarrow> is_spawned_h st c"
  by (auto simp: above_def is_spawned_h_def split: option.splits)

text \<open>The three kinds of write that mutation makes.\<close>

lemma write_mask:
  assumes "above n st c" and "n \<le> am"
  shows "same_below n st (st\<lparr>bool_arrays := (bool_arrays st)(am := v)\<rparr>)
       \<and> above n (st\<lparr>bool_arrays := (bool_arrays st)(am := v)\<rparr>) c"
proof -
  have "above n (st\<lparr>bool_arrays := (bool_arrays st)(am := v)\<rparr>) c = above n st c"
    by (rule above_cong) simp_all
  with assms show ?thesis by (simp add: same_below_def)
qed

lemma write_inputs:
  assumes "above n st c" and "n \<le> ia"
  shows "same_below n st (st\<lparr>int_arrays := (int_arrays st)(ia := v)\<rparr>)
       \<and> above n (st\<lparr>int_arrays := (int_arrays st)(ia := v)\<rparr>) c"
proof -
  have "above n (st\<lparr>int_arrays := (int_arrays st)(ia := v)\<rparr>) c = above n st c"
    by (rule above_cong) simp_all
  with assms show ?thesis by (simp add: same_below_def)
qed

lemma write_gene:
  assumes "above n st c" and "n \<le> ga" and "gene_objs st ga = Some gobj"
    and "o_inputs gobj' = o_inputs gobj"
  shows "same_below n st (st\<lparr>gene_objs := (gene_objs st)(ga := Some gobj')\<rparr>)
       \<and> above n (st\<lparr>gene_objs := (gene_objs st)(ga := Some gobj')\<rparr>) c"
proof -
  have "above n (st\<lparr>gene_objs := (gene_objs st)(ga := Some gobj')\<rparr>) c = above n st c"
    by (rule above_cong) (use assms(3,4) in auto)
  with assms(1,2) show ?thesis by (simp add: same_below_def)
qed

lemma walk_to_out_h_frame:
  "above n st c \<Longrightarrow> walk_to_out_h d cfg c st node = Inr st'
   \<Longrightarrow> same_below n st st' \<and> above n st' c"
proof (induction d arbitrary: st node st')
  case 0
  then show ?case by simp
next
  case (Suc d)
  show ?case
  proof (cases "self_active st c")
    case (Inl e)
    with Suc.prems(2) show ?thesis by simp
  next
    case (Inr p)
    obtain am act where p: "p = (am, act)" by (cases p)
    with Inr have a: "self_active st c = Inr (am, act)" by simp
    show ?thesis
    proof (cases "py_index act node")
      case (Inl e)
      with Suc.prems(2) a show ?thesis by simp
    next
      case k: (Inr k)
      show ?thesis
      proof (cases "act ! k")
        case True
        with Suc.prems a k show ?thesis by (simp add: same_below_refl)
      next
        case False
        let ?st1 = "st\<lparr>bool_arrays := (bool_arrays st)(am := Some (act[k := True]))\<rparr>"
        from write_mask[OF Suc.prems(1) above_active[OF Suc.prems(1) a]]
        have w: "same_below n st ?st1 \<and> above n ?st1 c" .
        let ?step = "\<lambda>i r. case r of Inl e \<Rightarrow> Inl e
                          | Inr s \<Rightarrow>
                              (case self_gene s c node of
                                 Inl e \<Rightarrow> Inl e
                               | Inr (ga', gobj') \<Rightarrow>
                                   (case int_arrays s (o_inputs gobj') of
                                      None \<Rightarrow> Inl TypeError
                                    | Some ins \<Rightarrow>
                                        (case py_index ins (int i) of
                                           Inl e \<Rightarrow> Inl e
                                         | Inr c' \<Rightarrow>
                                             if ins ! c' \<ge> num_input cfg
                                             then walk_to_out_h d cfg c s (ins ! c' - num_input cfg)
                                             else Inr s)))"
        let ?Q = "\<lambda>r. \<forall>s. r = Inr s \<longrightarrow> same_below n st s \<and> above n s c"
        have one: "?Q (?step i (Inr s))" if s: "same_below n st s" "above n s c" for i s
        proof (cases "self_gene s c node")
          case (Inl e)
          then show ?thesis by simp
        next
          case (Inr q)
          obtain ga' gobj' where q: "q = (ga', gobj')" by (cases q)
          show ?thesis
          proof (cases "int_arrays s (o_inputs gobj')")
            case None
            with Inr q show ?thesis by simp
          next
            case (Some ins)
            show ?thesis
            proof (cases "py_index ins (int i)")
              case (Inl e)
              with Inr q Some show ?thesis by simp
            next
              case c': (Inr c')
              show ?thesis
              proof (cases "ins ! c' \<ge> num_input cfg")
                case False
                with Inr q Some c' s show ?thesis by simp
              next
                case True
                have "same_below n st s' \<and> above n s' c"
                  if "walk_to_out_h d cfg c s (ins ! c' - num_input cfg) = Inr s'" for s'
                  using Suc.IH[OF s(2) that] s(1) by (auto intro: same_below_trans)
                with Inr q Some c' True show ?thesis by simp
              qed
            qed
          qed
        qed
        have step: "?Q (fold ?step slots r)" if "?Q r" for slots r
          using that
        proof (induction slots arbitrary: r)
          case Nil
          then show ?case by simp
        next
          case (Cons i slots)
          have "?Q (?step i r)"
          proof (cases r)
            case (Inl e)
            then show ?thesis by simp
          next
            case (Inr s)
            with Cons.prems have "same_below n st s" "above n s c" by auto
            from one[OF this, of i] Inr show ?thesis by simp
          qed
          from Cons.IH[OF this] show ?case by simp
        qed
        show ?thesis
        proof (cases "self_gene ?st1 c node")
          case (Inl e)
          with Suc.prems(2) a k False show ?thesis by simp
        next
          case (Inr q)
          obtain ga gobj where q: "q = (ga, gobj)" by (cases q)
          from Suc.prems(2) a k False Inr q
          have "fold ?step [0..<nat (o_num_inputs gobj)] (Inr ?st1) = Inr st'" by simp
          with step[of "Inr ?st1" "[0..<nat (o_num_inputs gobj)]"] w show ?thesis by simp
        qed
      qed
    qed
  qed
qed

lemma check_active_h_frame:
  assumes "above n st c" and "check_active_h cfg c st = Inr st'"
  shows "same_below n st st' \<and> above n st' c"
proof -
  from assms(2) obtain am act where a: "self_active st c = Inr (am, act)"
    by (auto simp: check_active_h_def split: sum.splits prod.splits)
  let ?st1 = "st\<lparr>bool_arrays := (bool_arrays st)(am := Some (replicate (length act) False))\<rparr>"
  from write_mask[OF assms(1) above_active[OF assms(1) a]]
  have w: "same_below n st ?st1 \<and> above n ?st1 c" .
  let ?step = "\<lambda>node r. case r of Inl e \<Rightarrow> Inl e
              | Inr s \<Rightarrow> walk_to_out_h (Suc (length act)) cfg c s (num_nodes cfg + int node)"
  let ?Q = "\<lambda>r. \<forall>s. r = Inr s \<longrightarrow> same_below n st s \<and> above n s c"
  have step: "?Q (fold ?step nodes r)" if "?Q r" for nodes r
    using that
  proof (induction nodes arbitrary: r)
    case Nil
    then show ?case by simp
  next
    case (Cons node nodes)
    have "?Q (?step node r)"
    proof (cases r)
      case (Inl e)
      then show ?thesis by simp
    next
      case (Inr s)
      with Cons.prems have s: "same_below n st s" "above n s c" by auto
      show ?thesis
      proof (intro allI impI)
        fix s' assume "?step node r = Inr s'"
        with Inr have "walk_to_out_h (Suc (length act)) cfg c s (num_nodes cfg + int node) = Inr s'"
          by (simp del: walk_to_out_h.simps)
        from walk_to_out_h_frame[OF s(2) this] s(1) show "same_below n st s' \<and> above n s' c"
          by (auto intro: same_below_trans)
      qed
    qed
    from Cons.IH[OF this] show ?case by (simp del: walk_to_out_h.simps)
  qed
  from assms(2) a have "fold ?step [0..<nat (num_output cfg)] (Inr ?st1) = Inr st'"
    by (simp add: check_active_h_def del: walk_to_out_h.simps)
  with step[of "Inr ?st1" "[0..<nat (num_output cfg)]"] w show ?thesis by simp
qed

lemma mutate_function_gene_h_frame:
  assumes "above n st c" and "mutate_function_gene_h cfg c st idx g = Some (Inr (b, st', g'))"
  shows "same_below n st st' \<and> above n st' c"
proof -
  from assms(2) obtain ga gobj f' j where sg: "self_gene st c idx = Inr (ga, gobj)"
    and st': "st' = st\<lparr>gene_objs := (gene_objs st)(ga :=
                 Some (gobj\<lparr>o_fnc_idx := Some f', o_num_inputs := function_inputs cfg ! j\<rparr>))\<rparr>"
    by (auto simp: mutate_function_gene_h_def split: sum.splits prod.splits option.splits)
  from above_gene[OF assms(1) sg] have "n \<le> ga" "gene_objs st ga = Some gobj" by auto
  from write_gene[OF assms(1) this, of "gobj\<lparr>o_fnc_idx := Some f', o_num_inputs := function_inputs cfg ! j\<rparr>"]
    st' show ?thesis by simp
qed

lemma mutate_connection_gene_for_h_frame:
  assumes "above n st c"
  shows "mutate_connection_gene_for_h lo hi c st idx slots g = Some (Inr (b, st', g'))
         \<Longrightarrow> same_below n st st' \<and> above n st' c"
proof (induction slots arbitrary: g)
  case Nil
  with assms show ?case by (simp add: same_below_refl)
next
  case (Cons i slots)
  from Cons.prems obtain coin g1 where coin: "randint 0 2 g = Inr (coin, g1)"
    by (auto split: sum.splits prod.splits)
  show ?case
  proof (cases "coin \<noteq> 0 \<and> hi - lo > 1")
    case False
    with Cons.prems coin
    have "mutate_connection_gene_for_h lo hi c st idx slots g1 = Some (Inr (b, st', g'))" by auto
    from Cons.IH[OF this] show ?thesis .
  next
    case True
    with Cons.prems coin obtain ga gobj ins k v where sg: "self_gene st c idx = Inr (ga, gobj)"
      and st': "st' = st\<lparr>int_arrays := (int_arrays st)(o_inputs gobj := Some (ins[k := v]))\<rparr>"
      by (auto split: sum.splits prod.splits option.splits)
    from above_gene[OF assms sg] have "n \<le> o_inputs gobj" by simp
    from write_inputs[OF assms this] st' show ?thesis by simp
  qed
qed

lemma mutate_connection_gene_h_frame:
  assumes "above n st c" and "mutate_connection_gene_h cfg c st idx g = Some (Inr (b, st', g'))"
  shows "same_below n st st' \<and> above n st' c"
proof -
  from assms(2) obtain lo hi slots where
    "mutate_connection_gene_for_h lo hi c st idx slots g = Some (Inr (b, st', g'))"
    by (auto simp: mutate_connection_gene_h_def Let_def split: if_splits sum.splits prod.splits)
  from mutate_connection_gene_for_h_frame[OF assms(1) this] show ?thesis .
qed

lemma mutate_while_h_frame_aux:
  assumes "mutate_while_h cfg c num_genes cnt st g = Some y"
  shows "\<forall>cnt' st' g'. above n st c \<longrightarrow> y = Inr (cnt', st', g') \<longrightarrow>
           same_below n st st' \<and> above n st' c"
proof (rule mutate_while_h.raw_induct[OF _ assms, where P = "\<lambda>cfg c num_genes cnt st g y.
    \<forall>cnt' st' g'. above n st c \<longrightarrow> y = Inr (cnt', st', g') \<longrightarrow>
           same_below n st st' \<and> above n st' c"], goal_cases)
  case (1 loop cfg c num_genes cnt st g y)
  show ?case
  proof (intro impI allI)
    fix cnt' st' g'
    assume ab: "above n st c" and y: "y = Inr (cnt', st', g')"
    from 1(2) y obtain B where B: "mutation_budget cfg num_genes = Inr B"
      by (cases "mutation_budget cfg num_genes") auto
    show "same_below n st st' \<and> above n st' c"
    proof (cases "cnt \<le> B")
      case False
      with 1(2) B y ab show ?thesis by (auto simp: same_below_refl)
    next
      case True
      with 1(2) B y obtain idx g1 b1 st1 g2 b2 st2 g3 where
        f: "(if idx < num_nodes cfg then mutate_function_gene_h cfg c st idx g1
                 else Some (Inr (False, st, g1))) = Some (Inr (b1, st1, g2))"
        and cg: "mutate_connection_gene_h cfg c st1 idx g2 = Some (Inr (b2, st2, g3))"
        and l: "loop cfg c num_genes (cnt + of_bool b1 + of_bool b2) st2 g3 = Some y"
        by (auto split: sum.splits prod.splits option.splits)
      have s1: "same_below n st st1 \<and> above n st1 c"
      proof (cases "idx < num_nodes cfg")
        case True
        with f have "mutate_function_gene_h cfg c st idx g1 = Some (Inr (b1, st1, g2))" by simp
        from mutate_function_gene_h_frame[OF ab this] show ?thesis .
      next
        case False
        with f ab show ?thesis by (auto simp: same_below_refl)
      qed
      from mutate_connection_gene_h_frame[OF _ cg] s1
      have s2: "same_below n st1 st2 \<and> above n st2 c" by simp
      from 1(1)[OF l] s2 y have "same_below n st2 st' \<and> above n st' c" by simp
      with s1 s2 show ?thesis by (auto intro: same_below_trans)
    qed
  qed
qed

lemma mutate_h_frame_aux:
  assumes "mutate_h cfg force c st g = Some y"
  shows "\<forall>st' g'. above n st c \<longrightarrow> y = Inr (st', g') \<longrightarrow>
           same_below n st st' \<and> above n st' c"
proof (rule mutate_h.raw_induct[OF _ assms, where P = "\<lambda>cfg force c st g y.
    \<forall>st' g'. above n st c \<longrightarrow> y = Inr (st', g') \<longrightarrow>
           same_below n st st' \<and> above n st' c"], goal_cases)
  case (1 mut cfg force c st g y)
  show ?case
  proof (intro impI allI)
    fix st' g'
    assume ab: "above n st c" and y: "y = Inr (st', g')"
    from above_spawned[OF ab] 1(2)
    have e0: "(case self_active st c of
             Inl e \<Rightarrow> Some (Inl e)
           | Inr (am, old_net) \<Rightarrow>
               (case self_genes st c of
                  Inl e \<Rightarrow> Some (Inl e)
                | Inr (la, l) \<Rightarrow>
                    (case mutate_while_h cfg c (int (length l)) 0 st g of
                       None \<Rightarrow> None
                     | Some (Inl e) \<Rightarrow> Some (Inl e)
                     | Some (Inr (cnt, st1, g1)) \<Rightarrow>
                         (case check_active_h cfg c st1 of
                            Inl e \<Rightarrow> Some (Inl e)
                          | Inr st2 \<Rightarrow>
                              (case self_active st2 c of
                                 Inl e \<Rightarrow> Some (Inl e)
                               | Inr (am2, act2) \<Rightarrow>
                                   if force \<and> act2 = old_net then mut cfg force c st2 g1
                                   else Some (Inr (st2, g1))))))) = Some y"
      by simp
    obtain am old_net where sa: "self_active st c = Inr (am, old_net)"
      using e0 y by (cases "self_active st c") auto
    obtain la l where sg: "self_genes st c = Inr (la, l)"
      using e0 y sa by (cases "self_genes st c") auto
    obtain cnt st1 g1 where
      w: "mutate_while_h cfg c (int (length l)) 0 st g = Some (Inr (cnt, st1, g1))"
    proof (cases "mutate_while_h cfg c (int (length l)) 0 st g")
      case None
      with e0 sa sg show ?thesis by simp
    next
      case (Some r)
      with e0 y sa sg that show ?thesis by (cases r) auto
    qed
    obtain st2 where ca: "check_active_h cfg c st1 = Inr st2"
      using e0 y sa sg w by (cases "check_active_h cfg c st1") auto
    obtain am2 act2 where sa2: "self_active st2 c = Inr (am2, act2)"
      using e0 y sa sg w ca by (cases "self_active st2 c") auto
    from e0 sa sg w ca sa2
    have r: "(if force \<and> act2 = old_net then mut cfg force c st2 g1
               else Some (Inr (st2, g1))) = Some y"
      by simp
    from mutate_while_h_frame_aux[OF w, of n] ab
    have s1: "same_below n st st1 \<and> above n st1 c" by simp
    from check_active_h_frame[OF _ ca] s1 have s2: "same_below n st1 st2 \<and> above n st2 c" by simp
    show "same_below n st st' \<and> above n st' c"
    proof (cases "force \<and> act2 = old_net")
      case True
      with r have "mut cfg force c st2 g1 = Some y" by simp
      from 1(1)[OF this] s2 y have "same_below n st2 st' \<and> above n st' c" by simp
      with s1 s2 show ?thesis by (auto intro: same_below_trans)
    next
      case False
      with r y s1 s2 show ?thesis by (auto intro: same_below_trans)
    qed
  qed
qed

lemma mutations_frame:
  "mutations cfg c st1 st2 \<Longrightarrow> above n st1 c \<Longrightarrow> same_below n st1 st2 \<and> above n st2 c"
proof (induction rule: mutations.induct)
  case (mutations_none st)
  then show ?case by (simp add: same_below_refl)
next
  case (mutations_step st st1 force g st2 g')
  from mutations_step.IH[OF mutations_step.prems]
  have s: "same_below n st st1 \<and> above n st1 c" .
  from mutate_h_frame_aux[OF mutations_step.hyps(2), of n] s
  have "same_below n st1 st2 \<and> above n st2 c" by simp
  with s show ?case by (auto intro: same_below_trans)
qed

text \<open>The source, read as a value, depends on the store below \<open>n\<close> only.\<close>

lemma view_same_below:
  assumes "below n st p" and "same_below n st st'"
  shows "view st' p = view st p"
proof -
  from assms have ip: "individuals st' p = individuals st p"
    by (simp add: below_def same_below_def)
  show ?thesis
  proof (cases "individuals st p")
    case None
    with ip show ?thesis by (simp add: view_def)
  next
    case (Some io)
    with assms have gl: "gene_lists st' (i_genes io) = gene_lists st (i_genes io)"
      by (simp add: below_def same_below_def)
    show ?thesis
    proof (cases "gene_lists st (i_genes io)")
      case None
      with ip Some gl show ?thesis by (simp add: view_def)
    next
      case l: (Some l)
      have "view_gene st' a = view_gene st a" if "a \<in> set l" for a
      proof -
        from assms(1) Some l that have a: "a < n"
          and o: "case gene_objs st a of None \<Rightarrow> True | Some gobj \<Rightarrow> o_inputs gobj < n"
          by (auto simp: below_def list_all_iff)
        from a assms(2) have g: "gene_objs st' a = gene_objs st a" by (simp add: same_below_def)
        show ?thesis
        proof (cases "gene_objs st a")
          case None
          with g show ?thesis by (simp add: view_gene_def)
        next
          case (Some gobj)
          with o assms(2) have "int_arrays st' (o_inputs gobj) = int_arrays st (o_inputs gobj)"
            by (simp add: same_below_def)
          with g Some show ?thesis by (simp add: view_gene_def)
        qed
      qed
      then have m: "map (view_gene st') l = map (view_gene st) l" by simp
      have v: "view st' p = view st p" if "\<And>am. i_active io = Some am \<Longrightarrow> bool_arrays st' am = bool_arrays st am"
      proof (cases "i_active io")
        case None
        then show ?thesis by (simp add: view_def ip Some gl l m cong: option.case_cong)
      next
        case am: (Some am)
        from that[OF am] show ?thesis by (simp add: view_def ip Some gl l m am cong: option.case_cong)
      qed
      have "bool_arrays st' am = bool_arrays st am" if "i_active io = Some am" for am
        using assms Some that by (simp add: below_def same_below_def)
      then show ?thesis by (rule v)
    qed
  qed
qed

lemma deepcopy_genes_fresh:
  assumes "deepcopy_genes l mg ma st = Inr (l', st')" and "n \<le> next_addr st"
    and "\<And>a a'. mg a = Some a' \<Longrightarrow> n \<le> a' \<and> a' < next_addr st
           \<and> (case gene_objs st a' of None \<Rightarrow> True | Some gobj \<Rightarrow> n \<le> o_inputs gobj)"
    and "\<And>a a'. ma a = Some a' \<Longrightarrow> n \<le> a'"
  shows "same_below (next_addr st) st st' \<and> next_addr st \<le> next_addr st'
       \<and> individuals st' = individuals st \<and> gene_lists st' = gene_lists st
       \<and> bool_arrays st' = bool_arrays st
       \<and> list_all (\<lambda>a. n \<le> a \<and> a < next_addr st'
           \<and> (case gene_objs st' a of None \<Rightarrow> True | Some gobj \<Rightarrow> n \<le> o_inputs gobj)) l'"
  using assms
proof (induction l arbitrary: mg ma st l' st')
  case Nil
  then show ?case by (simp add: same_below_refl)
next
  case (Cons a rest)
  show ?case
  proof (cases "mg a")
    case (Some a')
    with Cons.prems(1) obtain l1 where r: "deepcopy_genes rest mg ma st = Inr (l1, st')"
      and l': "l' = a' # l1"
      by (auto split: sum.splits prod.splits)
    from Cons.IH[OF r Cons.prems(2) Cons.prems(3) Cons.prems(4)]
    have ih: "same_below (next_addr st) st st'" "next_addr st \<le> next_addr st'"
      "individuals st' = individuals st" "gene_lists st' = gene_lists st"
      "bool_arrays st' = bool_arrays st"
      "list_all (\<lambda>a. n \<le> a \<and> a < next_addr st'
           \<and> (case gene_objs st' a of None \<Rightarrow> True | Some gobj \<Rightarrow> n \<le> o_inputs gobj)) l1"
      by simp_all
    from Cons.prems(3)[OF Some] have a': "n \<le> a'" "a' < next_addr st"
      "case gene_objs st a' of None \<Rightarrow> True | Some gobj \<Rightarrow> n \<le> o_inputs gobj" by simp_all
    from a'(2) ih(1) have "gene_objs st' a' = gene_objs st a'" by (simp add: same_below_def)
    with a' ih l' show ?thesis by simp
  next
    case None
    from Cons.prems(1) None obtain gobj where gobj: "gene_objs st a = Some gobj"
      by (auto split: option.splits)
    obtain ia' st1 ma' where arr: "(case ma (o_inputs gobj) of
                        Some ia' \<Rightarrow> Inr (ia', st, ma)
                      | None \<Rightarrow>
                          (case int_arrays st (o_inputs gobj) of
                             None \<Rightarrow> Inl TypeError
                           | Some xs \<Rightarrow>
                               (case new_int_array xs st of
                                  (ia', st1) \<Rightarrow>
                                    Inr (ia', st1, ma(o_inputs gobj := Some ia'))))) = Inr (ia', st1, ma')"
      using Cons.prems(1) None gobj by (auto split: sum.splits prod.splits)
    have s1: "n \<le> ia'" "same_below (next_addr st) st st1" "next_addr st \<le> next_addr st1"
      "gene_objs st1 = gene_objs st" "individuals st1 = individuals st"
      "gene_lists st1 = gene_lists st" "bool_arrays st1 = bool_arrays st"
      "\<And>b b'. ma' b = Some b' \<Longrightarrow> n \<le> b'"
      using arr Cons.prems(2) Cons.prems(4)
      by (auto simp: new_int_array_def same_below_def split: option.splits if_splits)
    let ?a' = "next_addr st1"
    let ?st2 = "st1\<lparr>gene_objs := (gene_objs st1)(next_addr st1 := Some (gobj\<lparr>o_inputs := ia'\<rparr>)),
                   next_addr := Suc (next_addr st1)\<rparr>"
    from Cons.prems(1) None gobj arr obtain l1 where
      r: "deepcopy_genes rest (mg(a := Some ?a')) ma' ?st2 = Inr (l1, st')"
      and l': "l' = ?a' # l1"
      by (auto simp: new_gene_def split: sum.splits prod.splits)
    have n2: "n \<le> next_addr ?st2" using Cons.prems(2) s1(3) by simp
    have mg2: "n \<le> b' \<and> b' < next_addr ?st2
           \<and> (case gene_objs ?st2 b' of None \<Rightarrow> True | Some gobj \<Rightarrow> n \<le> o_inputs gobj)"
      if "(mg(a := Some ?a')) b = Some b'" for b b'
    proof (cases "b = a")
      case True
      with that have "b' = ?a'" by simp
      with Cons.prems(2) s1(1,3) show ?thesis by simp
    next
      case False
      with that have "mg b = Some b'" by simp
      from Cons.prems(3)[OF this] s1(3,4) show ?thesis by auto
    qed
    from Cons.IH[OF r n2 mg2 s1(8)]
    have ih: "same_below (next_addr ?st2) ?st2 st'" "next_addr ?st2 \<le> next_addr st'"
      "individuals st' = individuals ?st2" "gene_lists st' = gene_lists ?st2"
      "bool_arrays st' = bool_arrays ?st2"
      "list_all (\<lambda>a. n \<le> a \<and> a < next_addr st'
           \<and> (case gene_objs st' a of None \<Rightarrow> True | Some gobj \<Rightarrow> n \<le> o_inputs gobj)) l1"
      by simp_all
    have sb2: "same_below (next_addr st) st1 ?st2" using s1(3) by (simp add: same_below_def)
    have sb: "same_below (next_addr st) st st'"
      using s1(2) sb2 same_below_mono[OF ih(1), of "next_addr st"] s1(3)
      by (auto intro: same_below_trans)
    from ih(1) have "gene_objs st' ?a' = Some (gobj\<lparr>o_inputs := ia'\<rparr>)"
      by (simp add: same_below_def)
    with Cons.prems(2) s1 ih l' sb show ?thesis by simp
  qed
qed

text \<open>\<open>clone\<close> allocates every object of the copy.\<close>

lemma clone_h_fresh:
  assumes "clone_h p st = Inr (c, st')"
  shows "same_below (next_addr st) st st' \<and> above (next_addr st) st' c"
proof -
  let ?n = "next_addr st"
  obtain inst st1 where ni: "new_individual st = (inst, st1)" by (cases "new_individual st")
  then have inst: "inst = Suc ?n" and n1: "next_addr st1 = Suc (Suc ?n)"
    and sb1: "same_below ?n st st1"
    by (auto simp: new_individual_def new_list_def same_below_def)
  from assms ni obtain io where io: "individuals st1 p = Some io"
    by (auto simp: clone_h_def split: option.splits)
  from assms ni io obtain am where am: "i_active io = Some am"
    by (auto simp: clone_h_def split: option.splits)
  from assms ni io am obtain act where act: "bool_arrays st1 am = Some act"
    by (auto simp: clone_h_def split: option.splits)
  obtain am' st2 where nb: "new_bool_array act st1 = (am', st2)"
    by (cases "new_bool_array act st1")
  then have am': "am' = Suc (Suc ?n)" and n2: "next_addr st2 = Suc (Suc (Suc ?n))"
    and sb2: "same_below ?n st1 st2"
    using n1 by (auto simp: new_bool_array_def same_below_def)
  from assms ni io am act nb obtain l where l: "gene_lists st2 (i_genes io) = Some l"
    by (auto simp: clone_h_def split: option.splits)
  from assms ni io am act nb l obtain l' st3 where
    dc: "deepcopy_genes l (\<lambda>a. None) (\<lambda>a. None) st2 = Inr (l', st3)"
    by (auto simp: clone_h_def split: sum.splits)
  have "?n \<le> next_addr st2" using n2 by simp
  from deepcopy_genes_fresh[OF dc this]
  have d: "same_below (next_addr st2) st2 st3" "next_addr st2 \<le> next_addr st3"
    "list_all (\<lambda>a. ?n \<le> a \<and> a < next_addr st3
           \<and> (case gene_objs st3 a of None \<Rightarrow> True | Some gobj \<Rightarrow> ?n \<le> o_inputs gobj)) l'"
    by simp_all
  from d(1) n2 have sb3: "same_below ?n st2 st3"
    by (auto intro: same_below_mono)
  let ?st4 = "st3\<lparr>gene_lists := (gene_lists st3)(next_addr st3 := Some l'),
                  next_addr := Suc (next_addr st3)\<rparr>"
  from assms ni io am act nb l dc
  have c: "c = inst"
    and st': "st' = ?st4\<lparr>individuals := (individuals ?st4)(inst :=
                 Some (io\<lparr>i_genes := next_addr st3, i_active := Some am'\<rparr>))\<rparr>"
    by (auto simp: clone_h_def new_list_def)
  have sb4: "same_below ?n st3 st'"
    using d(2) n2 inst by (simp add: st' same_below_def)
  have sb: "same_below ?n st st'"
    using sb1 sb2 sb3 sb4 by (blast intro: same_below_trans)
  have ab: "above ?n st' c"
    unfolding above_def
    using d(2,3) n2 inst am' by (simp add: c st' list_all_iff)
  from sb ab show ?thesis ..
qed

text \<open>
  Claim C9.  A clone shares no mutable gene or mask state with its source.  \<open>clone\<close> on
  the object store builds the copy out of newly allocated objects only: if every object the
  source \<open>p\<close> reaches lies below the allocation counter of the store in which it is cloned,
  then every object the clone \<open>c\<close> reaches lies at or above it, and stays there through any
  number of later mutations of the clone (forced or not).  These mutations leave every object
  below the counter as it was, so the genes, the mask and the attributes of the source, read
  as a value by \<open>view\<close>, are after the mutations what they were before the clone was made.
\<close>

theorem clone_independent:
  assumes "clone_h p st = Inr (c, st1)"
    and "below (next_addr st) st p"
    and "mutations cfg c st1 st2"
  shows "view st2 p = view st p \<and> same_below (next_addr st) st st2
       \<and> above (next_addr st) st2 c"
proof -
  from clone_h_fresh[OF assms(1)]
  have c: "same_below (next_addr st) st st1" "above (next_addr st) st1 c" by simp_all
  from mutations_frame[OF assms(3) c(2)]
  have m: "same_below (next_addr st) st1 st2" "above (next_addr st) st2 c" by simp_all
  from c(1) m(1) have sb: "same_below (next_addr st) st st2" by (rule same_below_trans)
  from view_same_below[OF assms(2) sb] sb m(2) show ?thesis by simp
qed

text \<open>The worked example: the parent is cloned and the clone is mutated with force.\<close>

lemma example_store_parent:
  "view example_store 1 = Some example_ind"
  by code_simp

lemma example_store_below:
  "below (next_addr example_store) example_store 1"
  by code_simp

lemma example_clone_mutate:
  "(case clone_h 1 example_store of
      Inl e \<Rightarrow> None
    | Inr (c, st1) \<Rightarrow>
        (case mutate_h example_cfg True c st1 (draws [1, 1, 0, 0, 2, 1, 1]) of
           Some (Inr (st2, g)) \<Rightarrow> Some (view st2 c, view st2 1)
         | _ \<Rightarrow> None))
   = Some (Some example_mutated, Some example_ind)"
  by code_simp

theorem clone_independent_witness:
  "view example_store 1 = Some example_ind
   \<and> (\<exists>c st1 st2. clone_h 1 example_store = Inr (c, st1)
        \<and> below (next_addr example_store) example_store 1
        \<and> mutations example_cfg c st1 st2
        \<and> view st2 c = Some example_mutated
        \<and> view st2 1 = Some example_ind
        \<and> same_below (next_addr example_store) example_store st2
        \<and> above (next_addr example_store) st2 c)"
proof -
  from example_clone_mutate obtain c st1 where cl: "clone_h 1 example_store = Inr (c, st1)"
    by (cases "clone_h 1 example_store") auto
  with example_clone_mutate obtain st2 g where
    mu: "mutate_h example_cfg True c st1 (draws [1, 1, 0, 0, 2, 1, 1]) = Some (Inr (st2, g))"
    and v: "view st2 c = Some example_mutated" "view st2 1 = Some example_ind"
    by (auto split: option.splits sum.splits)
  from mutations_step[OF mutations_none mu] have ms: "mutations example_cfg c st1 st2" .
  from clone_independent[OF cl example_store_below ms] cl example_store_below ms v
    example_store_parent
  show ?thesis by blast
qed

end
